theory Spec2Isabelle
  imports Complex_Main
begin

section \<open>ALOHA protocol simulation (aloha.py)\<close>

text \<open>
  Virtual time and all counters are Python integers, modelled as \<open>int\<close>. The results of
  \<open>float(a)/b\<close> are modelled as exact quotients in \<open>real\<close>; rounding is left out.
\<close>

subsection \<open>Data model\<close>

datatype py_error = ZeroDivisionError | KeyError | IndexError | ValueError

text \<open>\<open>class Arrival\<close>: the message label and the time it arrived.\<close>

record Arrival =
  arr_name :: string
  arr_time :: int

text \<open>\<open>class Frame\<close>. The field \<open>end\<close> is written \<open>end'\<close>.\<close>

record Frame =
  start :: int
  end' :: int
  frame_time :: int
  retry :: bool

text \<open>
  Frame objects are shared between the local variable \<open>frame\<close> of \<open>transmit\<close> and the
  class-level dictionary \<open>Station.frames_in_transmit\<close>, and \<open>check_collision\<close> mutates
  them through the dictionary. So frames live in a store of objects, and the dictionary
  maps a transmission id \<open>(station name, message name)\<close> to the address of its frame.
  The dictionary is an association list with at most one entry per key.
\<close>

type_synonym addr = nat
type_synonym frame_id = "string \<times> string"

record channel =
  frames_in_transmit :: "(frame_id \<times> addr) list"
  objs :: "addr \<Rightarrow> Frame"
  next_obj :: addr

definition Frame_init :: "int \<Rightarrow> int \<Rightarrow> int \<Rightarrow> Frame" where
  "Frame_init s e ft = \<lparr>start = s, end' = e, frame_time = ft, retry = False\<rparr>"

subsection \<open>The registry of frames in transmit\<close>

text \<open>\<open>Station.frames_in_transmit[frame_id] = frame\<close>: replaces the entry of an id
  that is present, appends one otherwise.\<close>

fun dict_set :: "('k \<times> 'v) list \<Rightarrow> 'k \<Rightarrow> 'v \<Rightarrow> ('k \<times> 'v) list" where
  "dict_set [] k v = [(k, v)]"
| "dict_set ((k', v') # kvs) k v =
     (if k' = k then (k, v) # kvs else (k', v') # dict_set kvs k v)"

fun dict_get :: "('k \<times> 'v) list \<Rightarrow> 'k \<Rightarrow> 'v option" where
  "dict_get [] k = None"
| "dict_get ((k', v') # kvs) k = (if k' = k then Some v' else dict_get kvs k)"

fun dict_del :: "('k \<times> 'v) list \<Rightarrow> 'k \<Rightarrow> ('k \<times> 'v) list" where
  "dict_del [] k = []"
| "dict_del ((k', v') # kvs) k = (if k' = k then kvs else (k', v') # dict_del kvs k)"

definition add_frame_in_transmit :: "channel \<Rightarrow> addr \<Rightarrow> frame_id \<Rightarrow> channel" where
  "add_frame_in_transmit c frame fid =
     c\<lparr>frames_in_transmit := dict_set (frames_in_transmit c) fid frame\<rparr>"

text \<open>\<open>dict.pop\<close> raises \<open>KeyError\<close> for an id that is not registered.\<close>

definition remove_frame_in_transmit :: "channel \<Rightarrow> frame_id \<Rightarrow> py_error + (addr \<times> channel)" where
  "remove_frame_in_transmit c fid =
     (case dict_get (frames_in_transmit c) fid of
        None \<Rightarrow> Inl KeyError
      | Some a \<Rightarrow> Inr (a, c\<lparr>frames_in_transmit := dict_del (frames_in_transmit c) fid\<rparr>))"

subsection \<open>Collision check\<close>

text \<open>
  The first loop of \<open>check_collision\<close>, over the entries of the dictionary in the order
  of \<open>keys()\<close>; \<open>hc\<close> is the variable \<open>has_collision\<close>. Looking a key of \<open>keys()\<close> up
  gives the frame of its own entry, so the loop runs over the entries.
\<close>

fun scan_collision :: "(addr \<Rightarrow> Frame) \<Rightarrow> Frame \<Rightarrow> frame_id \<Rightarrow> (frame_id \<times> addr) list \<Rightarrow> bool \<Rightarrow> bool" where
  "scan_collision h frame fid [] hc = hc"
| "scan_collision h frame fid ((key, a) # kvs) hc =
     scan_collision h frame fid kvs
       (if key \<noteq> fid then
          (if end' (h a) > start frame \<and> start (h a) < end' frame then True else hc)
        else hc)"

text \<open>The second loop: \<open>Station.frames_in_transmit[key].retry = True\<close> for every key.\<close>

fun set_all_retry :: "(frame_id \<times> addr) list \<Rightarrow> (addr \<Rightarrow> Frame) \<Rightarrow> (addr \<Rightarrow> Frame)" where
  "set_all_retry [] h = h"
| "set_all_retry ((key, a) # kvs) h = set_all_retry kvs (h(a := (h a)\<lparr>retry := True\<rparr>))"

definition has_collision :: "channel \<Rightarrow> addr \<Rightarrow> frame_id \<Rightarrow> bool" where
  "has_collision c frame fid =
     scan_collision (objs c) (objs c frame) fid (frames_in_transmit c) False"

definition check_collision :: "channel \<Rightarrow> addr \<Rightarrow> frame_id \<Rightarrow> channel" where
  "check_collision c frame fid =
     (if has_collision c frame fid
      then c\<lparr>objs := set_all_retry (frames_in_transmit c) (objs c)\<rparr>
      else c)"

text \<open>The overlap test of the claim, between the frame at \<open>a\<close> and the checked frame.\<close>

definition overlaps :: "Frame \<Rightarrow> Frame \<Rightarrow> bool" where
  "overlaps other frame \<longleftrightarrow> end' other > start frame \<and> start other < end' frame"

subsection \<open>Constants\<close>

definition NUM_STATIONS :: nat where "NUM_STATIONS = 8"
definition NUM_REPLICATIONS :: nat where "NUM_REPLICATIONS = 10"
definition TRANSIENT_TIME :: int where "TRANSIENT_TIME = 25"
definition TERMINATE_TIME :: int where "TERMINATE_TIME = 10000"
definition STEADY_STATE_TIME :: int where "STEADY_STATE_TIME = TERMINATE_TIME - TRANSIENT_TIME"

subsection \<open>Stations\<close>

text \<open>
  \<open>simpy.Resource(env, capacity=1)\<close>: the requests that hold the resource, the requests
  that wait for it in the order they were made, and the number of \<open>Release\<close> events that
  have been triggered and not yet processed. A request is named by the index of the
  message whose \<open>wait_for_service\<close> made it.
\<close>

record Resource =
  users :: "nat list"
  put_queue :: "nat list"
  releases :: nat

text \<open>The attributes of a \<open>Station\<close>; \<open>self.env.now\<close> is the clock of the simulation state.\<close>

record Station =
  name :: string
  server :: Resource
  arrivals :: "Arrival list"
  initial_reset_completed :: bool
  n :: int
  last_event :: int
  nt :: int
  st :: int
  T :: real
  num_retries :: int
  num_initial_transmits :: int
  mean_retries :: real
  busy_time :: int
  steady_state_time :: int
  U :: real

text \<open>\<open>'%d' % i\<close> for a natural number.\<close>

definition digit_char :: "nat \<Rightarrow> char" where
  "digit_char d = char_of (48 + d)"

fun str_of_nat :: "nat \<Rightarrow> string" where
  "str_of_nat i = (if i < 10 then [digit_char i] else str_of_nat (i div 10) @ [digit_char (i mod 10)])"

declare str_of_nat.simps [simp del]

definition Station_init :: "string \<Rightarrow> Station" where
  "Station_init nm =
     \<lparr>name = nm, server = \<lparr>users = [], put_queue = [], releases = 0\<rparr>, arrivals = [],
      initial_reset_completed = False, n = 0, last_event = 0, nt = 0, st = 0, T = 0,
      num_retries = 0, num_initial_transmits = 0, mean_retries = 0, busy_time = 0,
      steady_state_time = 0, U = 0\<rparr>"

definition reset_statistical_counters :: "Station \<Rightarrow> Station" where
  "reset_statistical_counters s =
     s\<lparr>nt := 0, st := 0, num_retries := 0, num_initial_transmits := 0, busy_time := 0\<rparr>"

subsection \<open>Reports\<close>

text \<open>\<open>float(a)/b\<close> raises \<open>ZeroDivisionError\<close> when \<open>b\<close> is zero.\<close>

definition float_div :: "int \<Rightarrow> int \<Rightarrow> py_error + real" where
  "float_div a b = (if b = 0 then Inl ZeroDivisionError else Inr (real_of_int a / real_of_int b))"

text \<open>\<open>Station.generate_report\<close>, at clock value \<open>now\<close>; the printed line is left out.\<close>

definition generate_report :: "int \<Rightarrow> Station \<Rightarrow> py_error + Station" where
  "generate_report now s =
     (let s1 = s\<lparr>steady_state_time := now - TRANSIENT_TIME\<rparr>;
          s2 = (if nt s1 > 0 then s1\<lparr>T := real_of_int (st s1) / real_of_int (nt s1)\<rparr> else s1);
          s3 = (if num_initial_transmits s2 > 0
                then s2\<lparr>mean_retries := real_of_int (num_retries s2) / real_of_int (num_initial_transmits s2)\<rparr>
                else s2)
      in case float_div (busy_time s3) (steady_state_time s3) of
           Inl e \<Rightarrow> Inl e
         | Inr u \<Rightarrow> Inr (s3\<lparr>U := u\<rparr>))"

text \<open>The totals loop of \<open>generate_report_single_replication\<close>:
  \<open>(total_st, total_nt, total_retries, total_initial_transmits, total_busy_time)\<close>.\<close>

fun totals :: "Station list \<Rightarrow> int \<times> int \<times> int \<times> int \<times> int \<Rightarrow> int \<times> int \<times> int \<times> int \<times> int" where
  "totals [] acc = acc"
| "totals (station # stations) (total_st, total_nt, total_retries, total_initial_transmits, total_busy_time) =
     totals stations
       (total_st + st station, total_nt + nt station, total_retries + num_retries station,
        total_initial_transmits + num_initial_transmits station, total_busy_time + busy_time station)"

text \<open>\<open>generate_report_single_replication\<close>: the three lists with the replication's
  means appended, or the exception raised.\<close>

definition generate_report_single_replication ::
  "real list \<Rightarrow> real list \<Rightarrow> real list \<Rightarrow> Station list \<Rightarrow> py_error + (real list \<times> real list \<times> real list)" where
  "generate_report_single_replication mean_transmit_times mean_num_retries channel_utilizations stations =
     (case totals stations (0, 0, 0, 0, 0) of
        (total_st, total_nt, total_retries, total_initial_transmits, total_busy_time) \<Rightarrow>
          let mean_t = (if total_nt > 0 then real_of_int total_st / real_of_int total_nt else 0);
              mean_transmit_times' = mean_transmit_times @ [mean_t]
          in case float_div total_retries total_initial_transmits of
               Inl e \<Rightarrow> Inl e
             | Inr mean_r \<Rightarrow>
                 (case float_div total_busy_time STEADY_STATE_TIME of
                    Inl e \<Rightarrow> Inl e
                  | Inr mean_U \<Rightarrow>
                      Inr (mean_transmit_times', mean_num_retries @ [mean_r],
                           channel_utilizations @ [mean_U])))"

subsection \<open>The server of a station\<close>

text \<open>
  \<open>simpy.Resource\<close> with capacity 1. Whenever the put queue is looked at, the request at
  its front is granted if no request holds the resource. Making a request appends it to
  the queue and looks at the queue; releasing removes the request from the users and
  triggers a \<open>Release\<close> event; processing that event looks at the queue again.
\<close>

definition trigger_put :: "Resource \<Rightarrow> Resource" where
  "trigger_put r =
     (case put_queue r of
        [] \<Rightarrow> r
      | p # q \<Rightarrow> if length (users r) < 1 then r\<lparr>users := users r @ [p], put_queue := q\<rparr> else r)"

definition request :: "Resource \<Rightarrow> nat \<Rightarrow> Resource" where
  "request r i = trigger_put (r\<lparr>put_queue := put_queue r @ [i]\<rparr>)"

definition release :: "Resource \<Rightarrow> nat \<Rightarrow> Resource" where
  "release r i = r\<lparr>users := remove1 i (users r), releases := releases r + 1\<rparr>"

definition release_processed :: "Resource \<Rightarrow> Resource" where
  "release_processed r = trigger_put (r\<lparr>releases := releases r - 1\<rparr>)"

subsection \<open>Processes\<close>

text \<open>
  A generator is modelled by the point where it is suspended and by its local variables.
  The \<open>arrive\<close> process of a station is either created and not yet started, or suspended
  at \<open>yield self.env.timeout(inter_t)\<close>; \<open>a_wake\<close> is the time of that timeout.
\<close>

datatype arrive_pc = Arrive_created | Arrive_yield_timeout

record arrive_proc =
  a_pc :: arrive_pc
  a_i :: nat
  a_wake :: int

text \<open>
  One message is served by the process \<open>wait_for_service(name)\<close>, the process
  \<open>transmit(name)\<close> it waits for, and the processes \<open>wait()\<close> that \<open>transmit\<close> waits for
  after a collision. At most one of the three runs or is about to run, so the three are
  one record: the suspension point and the local variables of the generators.

  \<^item> \<open>Wfs_created\<close>: \<open>env.process(w)\<close> was called, \<open>wait_for_service\<close> has not started;
  \<^item> \<open>Wfs_yield_req\<close>: suspended at \<open>yield req\<close>;
  \<^item> \<open>Tx_created\<close>: suspended at \<open>yield env.process(self.transmit(name))\<close>, \<open>transmit\<close>
    has not started;
  \<^item> \<open>Tx_yield_timeout\<close>: \<open>transmit\<close> suspended at \<open>yield self.env.timeout(frame.frame_time)\<close>;
  \<^item> \<open>Wait_created\<close>: \<open>transmit\<close> suspended at \<open>yield env.process(self.wait())\<close>, \<open>wait\<close>
    has not started;
  \<^item> \<open>Wait_yield_timeout\<close>: \<open>wait\<close> suspended at \<open>yield self.env.timeout(retry_time)\<close>;
  \<^item> \<open>Wait_done\<close>: \<open>wait\<close> has returned, \<open>transmit\<close> has not resumed yet;
  \<^item> \<open>Tx_done\<close>: \<open>transmit\<close> has returned, \<open>wait_for_service\<close> has not resumed yet;
  \<^item> \<open>Wfs_done\<close>: \<open>wait_for_service\<close> has returned.

  The fields \<open>h_frame_draws\<close>, \<open>h_initial_counts\<close> and \<open>h_attempts\<close> are history
  variables, not variables of the program: the number of calls of
  \<open>generate_frame_time\<close> for the message, the number of times the message incremented
  \<open>num_initial_transmits\<close>, and the \<open>frame_time\<close> of every frame created for it.
\<close>

datatype msg_pc =
  Wfs_created | Wfs_yield_req | Tx_created | Tx_yield_timeout | Wait_created
  | Wait_yield_timeout | Wait_done | Tx_done | Wfs_done

record msg =
  m_pc :: msg_pc
  m_name :: string
  wfs_transmit_time :: int
  tx_frame_time :: int
  tx_frame :: addr
  tx_transmit_time :: int
  m_wake :: int
  h_frame_draws :: nat
  h_initial_counts :: nat
  h_attempts :: "int list"

text \<open>
  A station with its processes. The message processes are in the order they were
  created: the process at index \<open>i\<close> serves the message \<open>'Frame %d' % i\<close>. The history
  variable \<open>h_resets\<close> lists the clock values at which \<open>reset_statistical_counters\<close> was
  called.
\<close>

record node =
  station :: Station
  arrive :: arrive_proc
  msgs :: "msg list"
  h_resets :: "int list"

definition msg_init :: "string \<Rightarrow> msg" where
  "msg_init nm =
     \<lparr>m_pc = Wfs_created, m_name = nm, wfs_transmit_time = 0, tx_frame_time = 0,
      tx_frame = 0, tx_transmit_time = 0, m_wake = 0, h_frame_draws = 0,
      h_initial_counts = 0, h_attempts = []\<rparr>"

definition node_init :: "string \<Rightarrow> node" where
  "node_init nm =
     \<lparr>station = Station_init nm,
      arrive = \<lparr>a_pc = Arrive_created, a_i = 0, a_wake = 0\<rparr>,
      msgs = [], h_resets = []\<rparr>"

subsection \<open>Variates\<close>

text \<open>
  \<open>generate_frame_time\<close>: the argument is the sequence of values that the successive
  calls of \<open>planck.rvs\<close> return; the loop stops at the first positive one. \<open>None\<close>: the
  sequence ends before the loop does.
\<close>

fun generate_frame_time :: "int list \<Rightarrow> int option" where
  "generate_frame_time [] = None"
| "generate_frame_time (R # Rs) = (if R > 0 then Some R else generate_frame_time Rs)"

subsection \<open>The code between two suspension points\<close>

text \<open>
  Each function below is the code that one process runs from one suspension point to
  the next, at clock value \<open>now\<close>. The result is \<open>None\<close> when the process is not at
  that point (or the variate is outside its distribution's range), \<open>Some (Inl e)\<close> when
  the code raises \<open>e\<close>, and the new state otherwise.
\<close>

definition create_frame :: "int \<Rightarrow> int \<Rightarrow> Frame" where
  "create_frame now ft = Frame_init now (now + ft) ft"

definition new_obj :: "channel \<Rightarrow> Frame \<Rightarrow> addr \<times> channel" where
  "new_obj c f = (next_obj c, c\<lparr>objs := (objs c)(next_obj c := f), next_obj := Suc (next_obj c)\<rparr>)"

definition set_msg :: "node \<Rightarrow> nat \<Rightarrow> msg \<Rightarrow> node" where
  "set_msg nd i m = nd\<lparr>msgs := (msgs nd)[i := m]\<rparr>"

definition at_pc :: "node \<Rightarrow> nat \<Rightarrow> msg_pc \<Rightarrow> bool" where
  "at_pc nd i p \<longleftrightarrow> i < length (msgs nd) \<and> m_pc (msgs nd ! i) = p"

text \<open>\<open>arrive\<close> up to its first \<open>yield\<close>; \<open>R\<close> is the value of \<open>poisson.rvs\<close>.\<close>

definition arrive_start :: "int \<Rightarrow> node \<Rightarrow> int \<Rightarrow> node option" where
  "arrive_start now nd R =
     (if a_pc (arrive nd) = Arrive_created \<and> 0 \<le> R
      then Some (nd\<lparr>arrive := \<lparr>a_pc = Arrive_yield_timeout, a_i = 0, a_wake = now + R\<rparr>\<rparr>)
      else None)"

text \<open>\<open>arrive\<close> from its \<open>yield\<close> round the loop to the \<open>yield\<close> again: the process
  for message \<open>i\<close> is created, \<open>R\<close> is the next value of \<open>poisson.rvs\<close>.\<close>

definition arrive_fire :: "int \<Rightarrow> node \<Rightarrow> int \<Rightarrow> node option" where
  "arrive_fire now nd R =
     (if a_pc (arrive nd) = Arrive_yield_timeout \<and> now = a_wake (arrive nd) \<and> 0 \<le> R
      then Some (nd\<lparr>msgs := msgs nd @ [msg_init (''Frame '' @ str_of_nat (a_i (arrive nd)))],
                     arrive := (arrive nd)\<lparr>a_i := Suc (a_i (arrive nd)), a_wake := now + R\<rparr>\<rparr>)
      else None)"

text \<open>\<open>wait_for_service\<close> up to \<open>yield req\<close>.\<close>

definition wfs_start :: "int \<Rightarrow> node \<Rightarrow> nat \<Rightarrow> node option" where
  "wfs_start now nd i =
     (if at_pc nd i Wfs_created then
        let m = msgs nd ! i; s0 = station nd;
            s1 = s0\<lparr>arrivals := arrivals s0 @ [\<lparr>arr_name = m_name m, arr_time = now\<rparr>],
                    last_event := now, n := n s0 + 1\<rparr>;
            s2 = s1\<lparr>server := request (server s1) i\<rparr>
        in Some (set_msg (nd\<lparr>station := s2\<rparr>) i (m\<lparr>m_pc := Wfs_yield_req\<rparr>))
      else None)"

text \<open>\<open>wait_for_service\<close> from \<open>yield req\<close>, once the request holds the server, to
  \<open>yield env.process(self.transmit(name))\<close>. \<open>popleft\<close> raises \<open>IndexError\<close> on an empty
  deque.\<close>

definition wfs_granted :: "int \<Rightarrow> node \<Rightarrow> nat \<Rightarrow> (py_error + node) option" where
  "wfs_granted now nd i =
     (if at_pc nd i Wfs_yield_req \<and> i \<in> set (users (server (station nd))) then
        (case arrivals (station nd) of
           [] \<Rightarrow> Some (Inl IndexError)
         | arrival # rest \<Rightarrow>
             Some (Inr (set_msg (nd\<lparr>station := (station nd)\<lparr>arrivals := rest\<rparr>\<rparr>) i
                          ((msgs nd ! i)\<lparr>m_pc := Tx_created, wfs_transmit_time := now\<rparr>))))
      else None)"

text \<open>The body of the loop of \<open>transmit\<close> up to \<open>yield self.env.timeout(frame.frame_time)\<close>.\<close>

definition tx_attempt :: "int \<Rightarrow> channel \<Rightarrow> node \<Rightarrow> nat \<Rightarrow> msg \<Rightarrow> channel \<times> node" where
  "tx_attempt now c nd i m =
     (let (frame, c1) = new_obj c (create_frame now (tx_frame_time m));
          frame_id = (name (station nd), m_name m);
          c2 = add_frame_in_transmit c1 frame frame_id
      in (c2, set_msg nd i
                (m\<lparr>m_pc := Tx_yield_timeout, tx_frame := frame, tx_transmit_time := now,
                   m_wake := now + frame_time (objs c2 frame),
                   h_attempts := h_attempts m @ [frame_time (objs c2 frame)]\<rparr>)))"

text \<open>\<open>transmit\<close> up to its first \<open>yield\<close>; \<open>Rs\<close> are the values of \<open>planck.rvs\<close>.\<close>

definition tx_start :: "int \<Rightarrow> channel \<Rightarrow> node \<Rightarrow> nat \<Rightarrow> int list \<Rightarrow> (channel \<times> node) option" where
  "tx_start now c nd i Rs =
     (if at_pc nd i Tx_created then
        (case generate_frame_time Rs of
           None \<Rightarrow> None
         | Some ft \<Rightarrow>
             let s0 = station nd;
                 s1 = s0\<lparr>num_initial_transmits := num_initial_transmits s0 + 1\<rparr>;
                 m = (msgs nd ! i)\<lparr>tx_frame_time := ft,
                        h_frame_draws := Suc (h_frame_draws (msgs nd ! i)),
                        h_initial_counts := Suc (h_initial_counts (msgs nd ! i))\<rparr>
             in Some (tx_attempt now c (nd\<lparr>station := s1\<rparr>) i m))
      else None)"

text \<open>\<open>transmit\<close> from the timeout of the frame to \<open>yield env.process(self.wait())\<close>
  or to its return.\<close>

definition tx_frame_end :: "int \<Rightarrow> channel \<Rightarrow> node \<Rightarrow> nat \<Rightarrow> (py_error + channel \<times> node) option" where
  "tx_frame_end now c nd i =
     (if at_pc nd i Tx_yield_timeout \<and> now = m_wake (msgs nd ! i) then
        let m = msgs nd ! i; s0 = station nd;
            frame = tx_frame m;
            frame_id = (name s0, m_name m);
            c1 = check_collision c frame frame_id
        in (case remove_frame_in_transmit c1 frame_id of
              Inl e \<Rightarrow> Some (Inl e)
            | Inr (removed, c2) \<Rightarrow>
                if retry (objs c2 frame)
                then Some (Inr (c2, set_msg (nd\<lparr>station := s0\<lparr>num_retries := num_retries s0 + 1\<rparr>\<rparr>) i
                                      (m\<lparr>m_pc := Wait_created\<rparr>)))
                else Some (Inr (c2, set_msg (nd\<lparr>station :=
                                        s0\<lparr>busy_time := busy_time s0 + (now - tx_transmit_time m)\<rparr>\<rparr>) i
                                      (m\<lparr>m_pc := Tx_done\<rparr>))))
      else None)"

text \<open>\<open>wait\<close> up to its \<open>yield\<close>; \<open>R\<close> is the value of \<open>planck.rvs\<close>.\<close>

definition wait_start :: "int \<Rightarrow> node \<Rightarrow> nat \<Rightarrow> int \<Rightarrow> node option" where
  "wait_start now nd i R =
     (if at_pc nd i Wait_created \<and> 0 \<le> R
      then Some (set_msg nd i ((msgs nd ! i)\<lparr>m_pc := Wait_yield_timeout, m_wake := now + R\<rparr>))
      else None)"

text \<open>\<open>wait\<close> from its \<open>yield\<close> to its return.\<close>

definition wait_end :: "int \<Rightarrow> node \<Rightarrow> nat \<Rightarrow> node option" where
  "wait_end now nd i =
     (if at_pc nd i Wait_yield_timeout \<and> now = m_wake (msgs nd ! i)
      then Some (set_msg nd i ((msgs nd ! i)\<lparr>m_pc := Wait_done\<rparr>))
      else None)"

text \<open>\<open>transmit\<close> from \<open>yield env.process(self.wait())\<close> round the loop to the
  timeout of the next frame.\<close>

definition tx_retry :: "int \<Rightarrow> channel \<Rightarrow> node \<Rightarrow> nat \<Rightarrow> (channel \<times> node) option" where
  "tx_retry now c nd i =
     (if at_pc nd i Wait_done then Some (tx_attempt now c nd i (msgs nd ! i)) else None)"

text \<open>\<open>wait_for_service\<close> from \<open>yield env.process(self.transmit(name))\<close> to its
  return; leaving the \<open>with\<close> block releases the server.\<close>

definition wfs_finish :: "int \<Rightarrow> node \<Rightarrow> nat \<Rightarrow> node option" where
  "wfs_finish now nd i =
     (if at_pc nd i Tx_done then
        let m = msgs nd ! i; s0 = station nd;
            s1 = s0\<lparr>nt := nt s0 + 1, st := st s0 + (now - wfs_transmit_time m),
                    last_event := now, n := n s0 - 1\<rparr>;
            do_reset = (\<not> initial_reset_completed s1 \<and> now \<ge> TRANSIENT_TIME);
            s2 = (if do_reset then (reset_statistical_counters s1)\<lparr>initial_reset_completed := True\<rparr>
                  else s1);
            s3 = s2\<lparr>server := release (server s2) i\<rparr>
        in Some (set_msg (nd\<lparr>station := s3,
                             h_resets := (if do_reset then h_resets nd @ [now] else h_resets nd)\<rparr>) i
                   (m\<lparr>m_pc := Wfs_done\<rparr>))
      else None)"

text \<open>The \<open>Release\<close> event of the server is processed.\<close>

definition release_event :: "node \<Rightarrow> node option" where
  "release_event nd =
     (if releases (server (station nd)) > 0
      then Some (nd\<lparr>station := (station nd)\<lparr>server := release_processed (server (station nd))\<rparr>\<rparr>)
      else None)"

subsection \<open>The simulation\<close>

text \<open>
  The state of one replication: the clock \<open>env.now\<close>, the class-level registry with
  the frame objects, and the stations with their processes.

  The scheduler of \<open>simpy\<close> is not part of the program. It is a parameter of the model:
  a run is driven by a list of actions, each either the clock moving forward or one
  process of one station running from one suspension point to the next, with the
  variates it draws. An action is enabled under the conditions that every event queue
  with timers meets: a process suspended at a timeout resumes when the clock equals the
  time of the timeout, the clock moves forward only when nothing is left to run at the
  current time and never past a pending timeout, events of one time run in the order
  in which they were triggered, and \<open>env.run(until=TERMINATE_TIME)\<close> runs nothing at
  or after \<open>TERMINATE_TIME\<close>. What is proved for every list of actions holds for the
  order in which \<open>simpy\<close> runs the processes.
\<close>

record sim =
  now :: int
  chan :: channel
  nodes :: "node list"

datatype node_action =
  Arrive_start int
  | Arrive_fire int
  | Wfs_start nat
  | Wfs_granted nat
  | Tx_start nat "int list"
  | Tx_frame_end nat
  | Wait_start nat int
  | Wait_end nat
  | Tx_retry nat
  | Wfs_finish nat
  | Release_event

datatype action = Advance int | At nat node_action

definition keep_chan :: "channel \<Rightarrow> node option \<Rightarrow> (py_error + channel \<times> node) option" where
  "keep_chan c r = map_option (\<lambda>nd. Inr (c, nd)) r"

fun node_step :: "node_action \<Rightarrow> int \<Rightarrow> channel \<Rightarrow> node \<Rightarrow> (py_error + channel \<times> node) option" where
  "node_step (Arrive_start R) t c nd = keep_chan c (arrive_start t nd R)"
| "node_step (Arrive_fire R) t c nd = keep_chan c (arrive_fire t nd R)"
| "node_step (Wfs_start i) t c nd = keep_chan c (wfs_start t nd i)"
| "node_step (Wfs_granted i) t c nd =
     map_option (\<lambda>r. case r of Inl e \<Rightarrow> Inl e | Inr nd' \<Rightarrow> Inr (c, nd')) (wfs_granted t nd i)"
| "node_step (Tx_start i Rs) t c nd = map_option Inr (tx_start t c nd i Rs)"
| "node_step (Tx_frame_end i) t c nd = tx_frame_end t c nd i"
| "node_step (Wait_start i R) t c nd = keep_chan c (wait_start t nd i R)"
| "node_step (Wait_end i) t c nd = keep_chan c (wait_end t nd i)"
| "node_step (Tx_retry i) t c nd = map_option Inr (tx_retry t c nd i)"
| "node_step (Wfs_finish i) t c nd = keep_chan c (wfs_finish t nd i)"
| "node_step Release_event t c nd = keep_chan c (release_event nd)"

text \<open>Nothing of the process is left to run before time \<open>t\<close>.\<close>

definition msg_idle_until :: "int \<Rightarrow> nat list \<Rightarrow> nat \<Rightarrow> msg \<Rightarrow> bool" where
  "msg_idle_until t us i m =
     (case m_pc m of
        Wfs_yield_req \<Rightarrow> i \<notin> set us
      | Tx_yield_timeout \<Rightarrow> t \<le> m_wake m
      | Wait_yield_timeout \<Rightarrow> t \<le> m_wake m
      | Wfs_done \<Rightarrow> True
      | _ \<Rightarrow> False)"

definition node_idle_until :: "int \<Rightarrow> node \<Rightarrow> bool" where
  "node_idle_until t nd \<longleftrightarrow>
     a_pc (arrive nd) = Arrive_yield_timeout \<and> t \<le> a_wake (arrive nd)
     \<and> releases (server (station nd)) = 0
     \<and> (\<forall>i < length (msgs nd). msg_idle_until t (users (server (station nd))) i (msgs nd ! i))"

text \<open>
  A frame is registered by \<open>transmit\<close> when it starts or resumes, and the event that
  starts or resumes it is triggered at the current time: the grant of the request, or the
  return of \<open>wait\<close>. The timeout of a frame is triggered when the frame is registered
  and is due at least one time unit later, since frame times are positive. The event
  queue runs the events of one time in the order in which they were triggered. So when
  a frame is registered, no timeout of a frame is due and still pending.
\<close>

fun registers :: "node_action \<Rightarrow> bool" where
  "registers (Tx_start i Rs) = True"
| "registers (Tx_retry i) = True"
| "registers a = False"

definition no_frame_due :: "sim \<Rightarrow> bool" where
  "no_frame_due s \<longleftrightarrow>
     (\<forall>nd \<in> set (nodes s). \<forall>m \<in> set (msgs nd). m_pc m = Tx_yield_timeout \<longrightarrow> now s < m_wake m)"

fun step :: "action \<Rightarrow> sim \<Rightarrow> (py_error + sim) option" where
  "step (Advance t) s =
     (if now s < t \<and> t \<le> TERMINATE_TIME \<and> (\<forall>nd \<in> set (nodes s). node_idle_until t nd)
      then Some (Inr (s\<lparr>now := t\<rparr>))
      else None)"
| "step (At k a) s =
     (if k < length (nodes s) \<and> now s < TERMINATE_TIME \<and> (registers a \<longrightarrow> no_frame_due s) then
        (case node_step a (now s) (chan s) (nodes s ! k) of
           None \<Rightarrow> None
         | Some (Inl e) \<Rightarrow> Some (Inl e)
         | Some (Inr (c, nd)) \<Rightarrow> Some (Inr (s\<lparr>chan := c, nodes := (nodes s)[k := nd]\<rparr>)))
      else None)"

fun exec :: "action list \<Rightarrow> sim \<Rightarrow> (py_error + sim) option" where
  "exec [] s = Some (Inr s)"
| "exec (a # as) s =
     (case step a s of
        None \<Rightarrow> None
      | Some (Inl e) \<Rightarrow> Some (Inl e)
      | Some (Inr s') \<Rightarrow> exec as s')"

text \<open>
  The start of a replication: \<open>simpy.Environment()\<close> and the eight stations, each with
  its \<open>arrive\<close> process created. \<open>Station.frames_in_transmit\<close> is a class attribute, made
  once when the class is defined: the replication starts with the registry \<open>c\<close> that is
  there.
\<close>

definition sim_init :: "channel \<Rightarrow> sim" where
  "sim_init c =
     \<lparr>now = 0, chan = c,
      nodes = map (\<lambda>i. node_init (''Station '' @ str_of_nat i)) [0 ..< NUM_STATIONS]\<rparr>"

definition empty_channel :: channel where
  "empty_channel = \<lparr>frames_in_transmit = [], objs = (\<lambda>a. Frame_init 0 0 0), next_obj = 0\<rparr>"

text \<open>The states a replication goes through, from the registry \<open>c\<close>.\<close>

definition reachable_from :: "channel \<Rightarrow> sim \<Rightarrow> bool" where
  "reachable_from c s \<longleftrightarrow> (\<exists>acts. exec acts (sim_init c) = Some (Inr s))"

text \<open>\<open>env.run(until=TERMINATE_TIME)\<close>: the run ends with the clock at
  \<open>TERMINATE_TIME\<close>.\<close>

definition env_run :: "action list \<Rightarrow> sim \<Rightarrow> (py_error + sim) option" where
  "env_run acts s =
     (case exec acts s of
        None \<Rightarrow> None
      | Some (Inl e) \<Rightarrow> Some (Inl e)
      | Some (Inr s') \<Rightarrow> if now s' = TERMINATE_TIME then Some (Inr s') else None)"

text \<open>The loop \<open>for station in stations: station.generate_report()\<close>.\<close>

fun generate_reports :: "int \<Rightarrow> Station list \<Rightarrow> py_error + Station list" where
  "generate_reports t [] = Inr []"
| "generate_reports t (x # xs) =
     (case generate_report t x of
        Inl e \<Rightarrow> Inl e
      | Inr x' \<Rightarrow> (case generate_reports t xs of Inl e \<Rightarrow> Inl e | Inr xs' \<Rightarrow> Inr (x' # xs')))"

text \<open>
  The body of the loop over the replications: the three lists of means and the
  registry go in, and come out updated together with the stations as reported.
\<close>

type_synonym means = "real list \<times> real list \<times> real list"

definition replication :: "action list \<Rightarrow> means \<times> channel \<Rightarrow> (py_error + (means \<times> channel) \<times> Station list) option" where
  "replication acts mc =
     (case mc of ((mean_transmit_times, mean_num_retries, channel_utilizations), c) \<Rightarrow>
        (case env_run acts (sim_init c) of
           None \<Rightarrow> None
         | Some (Inl e) \<Rightarrow> Some (Inl e)
         | Some (Inr s) \<Rightarrow>
             (case generate_reports (now s) (map station (nodes s)) of
                Inl e \<Rightarrow> Some (Inl e)
              | Inr stations \<Rightarrow>
                  (case generate_report_single_replication mean_transmit_times mean_num_retries
                          channel_utilizations stations of
                     Inl e \<Rightarrow> Some (Inl e)
                   | Inr ms \<Rightarrow> Some (Inr ((ms, chan s), stations))))))"

text \<open>The replications one after the other, one list of actions for each.\<close>

fun replications :: "action list list \<Rightarrow> means \<times> channel \<Rightarrow> (py_error + means \<times> channel) option" where
  "replications [] mc = Some (Inr mc)"
| "replications (acts # rest) mc =
     (case replication acts mc of
        None \<Rightarrow> None
      | Some (Inl e) \<Rightarrow> Some (Inl e)
      | Some (Inr (mc', stations)) \<Rightarrow> replications rest mc')"

subsection \<open>Invariants of a station\<close>

text \<open>The suspension points of a message that holds the server, and those of a message
  whose \<open>transmit\<close> has started and whose \<open>wait_for_service\<close> has not counted it yet.\<close>

definition active_pc :: "msg_pc \<Rightarrow> bool" where
  "active_pc p \<longleftrightarrow>
     p = Tx_created \<or> p = Tx_yield_timeout \<or> p = Wait_created \<or> p = Wait_yield_timeout
     \<or> p = Wait_done \<or> p = Tx_done"

definition started_pc :: "msg_pc \<Rightarrow> bool" where
  "started_pc p \<longleftrightarrow>
     p = Tx_yield_timeout \<or> p = Wait_created \<or> p = Wait_yield_timeout
     \<or> p = Wait_done \<or> p = Tx_done"

text \<open>At most one request holds the server, and a message that is past \<open>yield req\<close>
  and not finished is the one that holds it.\<close>

definition srv_ok :: "nat list \<Rightarrow> msg_pc list \<Rightarrow> bool" where
  "srv_ok us pcs \<longleftrightarrow>
     length us \<le> 1 \<and> (\<forall>i < length pcs. active_pc (pcs ! i) \<longrightarrow> us = [i])"

definition server_inv :: "node \<Rightarrow> bool" where
  "server_inv nd \<longleftrightarrow> srv_ok (users (server (station nd))) (map m_pc (msgs nd))"

definition any_started :: "msg_pc list \<Rightarrow> bool" where
  "any_started pcs \<longleftrightarrow> (\<exists>i < length pcs. started_pc (pcs ! i))"

text \<open>The initial transmissions counted are the successes counted, plus one while a
  message is being transmitted.\<close>

definition count_inv :: "node \<Rightarrow> bool" where
  "count_inv nd \<longleftrightarrow>
     num_initial_transmits (station nd) =
       nt (station nd) + (if any_started (map m_pc (msgs nd)) then 1 else 0)"

definition local_inv :: "node \<Rightarrow> bool" where
  "local_inv nd \<longleftrightarrow> server_inv nd \<and> count_inv nd"

text \<open>The resets of a station so far: at most one, at or after \<open>TRANSIENT_TIME\<close> and not
  after the present, and \<open>initial_reset_completed\<close> tells whether there was one.\<close>

definition reset_inv :: "int \<Rightarrow> node \<Rightarrow> bool" where
  "reset_inv t nd \<longleftrightarrow>
     length (h_resets nd) \<le> 1
     \<and> (\<forall>r \<in> set (h_resets nd). TRANSIENT_TIME \<le> r \<and> r \<le> t)
     \<and> (initial_reset_completed (station nd) \<longleftrightarrow> h_resets nd \<noteq> [])"

text \<open>The history of a message: before \<open>transmit\<close> starts, nothing was drawn, counted
  or sent; from then on one frame time was drawn, the message was counted once, and
  every frame made for it has the frame time drawn.\<close>

definition before_tx :: "msg_pc \<Rightarrow> bool" where
  "before_tx p \<longleftrightarrow> p = Wfs_created \<or> p = Wfs_yield_req \<or> p = Tx_created"

definition msg_history_ok :: "msg \<Rightarrow> bool" where
  "msg_history_ok m \<longleftrightarrow>
     (if before_tx (m_pc m)
      then h_frame_draws m = 0 \<and> h_initial_counts m = 0 \<and> h_attempts m = []
      else h_frame_draws m = 1 \<and> h_initial_counts m = 1 \<and> h_attempts m \<noteq> []
           \<and> (\<forall>d \<in> set (h_attempts m). d = tx_frame_time m) \<and> 0 < tx_frame_time m)"

definition history_inv :: "node \<Rightarrow> bool" where
  "history_inv nd \<longleftrightarrow> (\<forall>m \<in> set (msgs nd). msg_history_ok m)"

text \<open>What a finished replication leaves: the reset times of the stations.\<close>

definition final_resets :: "action list \<Rightarrow> channel \<Rightarrow> int list list option" where
  "final_resets acts c =
     (case env_run acts (sim_init c) of
        Some (Inr s) \<Rightarrow> Some (map h_resets (nodes s))
      | _ \<Rightarrow> None)"

text \<open>
  The busy time of a station against the clock. A station that has been reset counts
  busy time from \<open>TRANSIENT_TIME\<close> on; one that has not been reset has only completed
  messages before \<open>TRANSIENT_TIME\<close>. While a frame is on the air the bound is against
  the start of the frame, and between the success of \<open>transmit\<close> and the return of
  \<open>wait_for_service\<close> it is against the clock without the cutoff.
\<close>

definition sending_pc :: "msg_pc \<Rightarrow> bool" where
  "sending_pc p \<longleftrightarrow> p = Tx_yield_timeout \<or> p = Tx_done"

definition any_sending :: "msg_pc list \<Rightarrow> bool" where
  "any_sending pcs \<longleftrightarrow> (\<exists>i < length pcs. sending_pc (pcs ! i))"

definition busy_bound :: "Station \<Rightarrow> int \<Rightarrow> bool" where
  "busy_bound s x \<longleftrightarrow>
     (if initial_reset_completed s then busy_time s + TRANSIENT_TIME \<le> x
      else busy_time s \<le> x \<and> busy_time s < TRANSIENT_TIME)"

definition sending_ok :: "int \<Rightarrow> Station \<Rightarrow> msg \<Rightarrow> bool" where
  "sending_ok t s m \<longleftrightarrow>
     (m_pc m = Tx_yield_timeout \<longrightarrow>
        tx_transmit_time m \<le> t \<and> t \<le> m_wake m \<and> busy_bound s (tx_transmit_time m))
     \<and> (m_pc m = Tx_done \<longrightarrow>
        t < TERMINATE_TIME
        \<and> busy_time s + (if initial_reset_completed s then TRANSIENT_TIME else 0) \<le> t)"

definition busy_inv :: "int \<Rightarrow> node \<Rightarrow> bool" where
  "busy_inv t nd \<longleftrightarrow>
     0 \<le> busy_time (station nd)
     \<and> (\<forall>m \<in> set (msgs nd). sending_ok t (station nd) m)
     \<and> (\<not> any_sending (map m_pc (msgs nd)) \<longrightarrow> busy_bound (station nd) t)"

definition node_inv :: "int \<Rightarrow> node \<Rightarrow> bool" where
  "node_inv t nd \<longleftrightarrow> server_inv nd \<and> history_inv nd \<and> busy_inv t nd"

text \<open>The system-wide utilization that a replication appends to \<open>channel_utilizations\<close>.\<close>

definition system_utilization :: "action list \<Rightarrow> channel \<Rightarrow> real option" where
  "system_utilization acts c =
     (case replication acts (([], [], []), c) of
        Some (Inr (((mean_transmit_times, mean_num_retries, channel_utilizations), c'), stations)) \<Rightarrow>
          Some (last channel_utilizations)
      | _ \<Rightarrow> None)"

text \<open>The registry as a list of ids with their frames.\<close>

definition registry_view :: "channel \<Rightarrow> (frame_id \<times> Frame) list" where
  "registry_view c = map (\<lambda>(key, a). (key, objs c a)) (frames_in_transmit c)"

text \<open>The class attribute after one replication from the registry \<open>c\<close>, the registry
  with which the replication after it starts, and the mean numbers of retries that
  successive replications append, starting with the empty registry.\<close>

definition carried_channel :: "action list \<Rightarrow> channel \<Rightarrow> channel option" where
  "carried_channel acts c =
     (case replication acts (([], [], []), c) of
        Some (Inr ((ms, c'), stations)) \<Rightarrow> Some c'
      | _ \<Rightarrow> None)"

text \<open>The exception that ends a replication, if one does.\<close>

definition replication_error :: "action list \<Rightarrow> channel \<Rightarrow> py_error option" where
  "replication_error acts c =
     (case replication acts (([], [], []), c) of
        Some (Inl e) \<Rightarrow> Some e
      | _ \<Rightarrow> None)"

definition next_start_registry :: "action list \<Rightarrow> channel \<Rightarrow> (frame_id \<times> Frame) list option" where
  "next_start_registry acts c =
     map_option (\<lambda>c'. registry_view (chan (sim_init c'))) (carried_channel acts c)"

definition mean_retries_of :: "action list list \<Rightarrow> real list option" where
  "mean_retries_of scheds =
     (case replications scheds (([], [], []), empty_channel) of
        Some (Inr ((mean_transmit_times, mean_num_retries, channel_utilizations), c)) \<Rightarrow>
          Some mean_num_retries
      | _ \<Rightarrow> None)"

text \<open>The registry before and after the action \<open>a\<close>, taken in the second replication
  after the actions \<open>acts2\<close>, when the first replication ran \<open>acts1\<close>.\<close>

definition second_replication_step ::
  "action list \<Rightarrow> action list \<Rightarrow> action \<Rightarrow> ((frame_id \<times> Frame) list \<times> (frame_id \<times> Frame) list) option" where
  "second_replication_step acts1 acts2 a =
     (case carried_channel acts1 empty_channel of
        None \<Rightarrow> None
      | Some c \<Rightarrow>
          (case exec acts2 (sim_init c) of
             Some (Inr s) \<Rightarrow>
               (case step a s of
                  Some (Inr s') \<Rightarrow> Some (registry_view (chan s), registry_view (chan s'))
                | _ \<Rightarrow> None)
           | _ \<Rightarrow> None))"

subsection \<open>Invariants of the whole simulation\<close>

text \<open>The message \<open>i\<close> of station \<open>k\<close> has a frame on the air: its \<open>transmit\<close> is
  suspended at the timeout of the frame.\<close>

definition msg_at :: "sim \<Rightarrow> nat \<Rightarrow> nat \<Rightarrow> msg" where
  "msg_at s k i = msgs (nodes s ! k) ! i"

definition flight :: "sim \<Rightarrow> nat \<Rightarrow> nat \<Rightarrow> bool" where
  "flight s k i \<longleftrightarrow>
     k < length (nodes s) \<and> i < length (msgs (nodes s ! k))
     \<and> m_pc (msg_at s k i) = Tx_yield_timeout"

definition frame_id_of :: "sim \<Rightarrow> nat \<Rightarrow> nat \<Rightarrow> frame_id" where
  "frame_id_of s k i = (name (station (nodes s ! k)), m_name (msg_at s k i))"

definition names_inv :: "sim \<Rightarrow> bool" where
  "names_inv s \<longleftrightarrow> distinct (map (\<lambda>nd. name (station nd)) (nodes s))"

text \<open>A frame on the air is registered under the id of its message, its object is
  allocated, and the object has the times of the attempt.\<close>

definition registry_inv :: "sim \<Rightarrow> bool" where
  "registry_inv s \<longleftrightarrow>
     (\<forall>k i. flight s k i \<longrightarrow>
        dict_get (frames_in_transmit (chan s)) (frame_id_of s k i) = Some (tx_frame (msg_at s k i))
        \<and> tx_frame (msg_at s k i) < next_obj (chan s)
        \<and> start (objs (chan s) (tx_frame (msg_at s k i))) = tx_transmit_time (msg_at s k i)
        \<and> end' (objs (chan s) (tx_frame (msg_at s k i))) = m_wake (msg_at s k i))"

text \<open>Of two frames on the air, each started before the other ends.\<close>

definition fifo_inv :: "sim \<Rightarrow> bool" where
  "fifo_inv s \<longleftrightarrow>
     (\<forall>k i k' i'. flight s k i \<and> flight s k' i' \<longrightarrow>
        tx_transmit_time (msg_at s k i) < m_wake (msg_at s k' i'))"

definition global_inv :: "sim \<Rightarrow> bool" where
  "global_inv s \<longleftrightarrow>
     (\<forall>nd \<in> set (nodes s). node_inv (now s) nd) \<and> names_inv s \<and> registry_inv s \<and> fifo_inv s"

text \<open>The frame object of the message \<open>i\<close> of station \<open>k\<close>, and whether the attempt that
  made the object \<open>a\<close> for it is over.\<close>

definition frame_of :: "sim \<Rightarrow> nat \<Rightarrow> nat \<Rightarrow> Frame" where
  "frame_of s k i = objs (chan s) (tx_frame (msg_at s k i))"

definition attempt_over :: "sim \<Rightarrow> nat \<Rightarrow> nat \<Rightarrow> addr \<Rightarrow> bool" where
  "attempt_over s k i a \<longleftrightarrow> \<not> (flight s k i \<and> tx_frame (msg_at s k i) = a)"

text \<open>Two frame objects that overlap: both are on the air, for the messages given, or
  both are flagged.\<close>

definition pair_inv :: "addr \<Rightarrow> addr \<Rightarrow> nat \<Rightarrow> nat \<Rightarrow> nat \<Rightarrow> nat \<Rightarrow> sim \<Rightarrow> bool" where
  "pair_inv a b k i k' i' s \<longleftrightarrow>
     a < next_obj (chan s) \<and> b < next_obj (chan s)
     \<and> overlaps (objs (chan s) a) (objs (chan s) b)
     \<and> ((flight s k i \<and> tx_frame (msg_at s k i) = a \<and> flight s k' i' \<and> tx_frame (msg_at s k' i') = b)
         \<or> (retry (objs (chan s) a) \<and> retry (objs (chan s) b)))"

text \<open>
  The busy time of the stations that have been reset, taken together. It fits between
  \<open>TRANSIENT_TIME\<close> and the clock, and between \<open>TRANSIENT_TIME\<close> and the start of every
  frame on the air that is not flagged.
\<close>

definition reset_busy :: "node \<Rightarrow> int" where
  "reset_busy nd = (if initial_reset_completed (station nd) then busy_time (station nd) else 0)"

definition total_reset_busy :: "sim \<Rightarrow> int" where
  "total_reset_busy s = sum_list (map reset_busy (nodes s))"

definition clear_inv :: "sim \<Rightarrow> bool" where
  "clear_inv s \<longleftrightarrow>
     total_reset_busy s + TRANSIENT_TIME \<le> max TRANSIENT_TIME (now s)
     \<and> (\<forall>k i. flight s k i \<and> \<not> retry (frame_of s k i) \<longrightarrow>
          total_reset_busy s + TRANSIENT_TIME \<le> max TRANSIENT_TIME (tx_transmit_time (msg_at s k i)))"

text \<open>
  The time at which the server was granted to a message, \<open>transmit_time\<close> of
  \<open>wait_for_service\<close>, against the clock and against the resets of the station: a
  message that holds the server was granted it at or after every reset so far, and a
  message that has sent a frame to its end was granted the server before the present.
\<close>

definition grant_ok :: "int \<Rightarrow> int list \<Rightarrow> msg \<Rightarrow> bool" where
  "grant_ok t rs m \<longleftrightarrow>
     (active_pc (m_pc m) \<longrightarrow> (\<forall>r \<in> set rs. r \<le> wfs_transmit_time m) \<and> wfs_transmit_time m \<le> t)
     \<and> (m_pc m = Tx_yield_timeout \<longrightarrow> wfs_transmit_time m < m_wake m)
     \<and> (m_pc m = Tx_done \<or> m_pc m = Wfs_done \<longrightarrow> wfs_transmit_time m < t)"

definition grant_inv :: "int \<Rightarrow> node \<Rightarrow> bool" where
  "grant_inv t nd \<longleftrightarrow>
     (\<forall>r \<in> set (h_resets nd). r \<le> t)
     \<and> (\<forall>j < length (msgs nd). grant_ok t (h_resets nd) (msgs nd ! j))"

text \<open>
  The messages that \<open>num_initial_transmits\<close> counts: those whose \<open>transmit\<close> has started,
  and, once the counters have been reset, only those that were granted the server at or
  after the reset.
\<close>

definition counted_msg :: "int list \<Rightarrow> msg \<Rightarrow> bool" where
  "counted_msg rs m \<longleftrightarrow> \<not> before_tx (m_pc m) \<and> (\<forall>r \<in> set rs. r \<le> wfs_transmit_time m)"

definition tally_inv :: "node \<Rightarrow> bool" where
  "tally_inv nd \<longleftrightarrow>
     num_initial_transmits (station nd) = int (length (filter (counted_msg (h_resets nd)) (msgs nd)))"

definition full_inv :: "int \<Rightarrow> node \<Rightarrow> bool" where
  "full_inv t nd \<longleftrightarrow> node_inv t nd \<and> reset_inv t nd \<and> grant_inv t nd \<and> tally_inv nd"

text \<open>
  The statistical counters of a station, the five attributes that
  \<open>reset_statistical_counters\<close> assigns: all zero, and none smaller than before.
\<close>

definition counters_zero :: "Station \<Rightarrow> bool" where
  "counters_zero x \<longleftrightarrow>
     nt x = 0 \<and> st x = 0 \<and> num_retries x = 0 \<and> num_initial_transmits x = 0 \<and> busy_time x = 0"

definition counters_le :: "Station \<Rightarrow> Station \<Rightarrow> bool" where
  "counters_le x y \<longleftrightarrow>
     nt x \<le> nt y \<and> st x \<le> st y \<and> num_retries x \<le> num_retries y
     \<and> num_initial_transmits x \<le> num_initial_transmits y \<and> busy_time x \<le> busy_time y"

text \<open>
  The action is the return of \<open>wait_for_service\<close> for a message of station \<open>k\<close>; it is
  the start of \<open>transmit\<close> for a message of station \<open>k\<close>; and the clock values at which
  the messages of station \<open>k\<close> complete in a run.
\<close>

fun completes :: "nat \<Rightarrow> action \<Rightarrow> bool" where
  "completes k (At j (Wfs_finish i)) = (j = k)"
| "completes k a = False"


fun completion_times :: "nat \<Rightarrow> action list \<Rightarrow> sim \<Rightarrow> int list" where
  "completion_times k [] s = []"
| "completion_times k (a # as) s =
     (case step a s of
        Some (Inr s') \<Rightarrow> (if completes k a then [now s] else []) @ completion_times k as s'
      | _ \<Rightarrow> [])"

text \<open>The guard of the reset at the end of \<open>wait_for_service\<close>, for the action \<open>a\<close> in
  the state \<open>s\<close>.\<close>

definition resets_at :: "nat \<Rightarrow> action \<Rightarrow> sim \<Rightarrow> bool" where
  "resets_at k a s \<longleftrightarrow>
     completes k a \<and> TRANSIENT_TIME \<le> now s \<and> \<not> initial_reset_completed (station (nodes s ! k))"

subsection \<open>Example inputs\<close>

definition ex_frames :: "addr \<Rightarrow> Frame" where
  "ex_frames a =
     (if a = 0 then Frame_init 0 10 10
      else if a = 1 then Frame_init 2 4 2
      else Frame_init 20 30 10)"

definition ex_channel :: channel where
  "ex_channel =
     \<lparr>frames_in_transmit =
        [((''Station 0'', ''Frame 0''), 0), ((''Station 1'', ''Frame 0''), 1),
         ((''Station 2'', ''Frame 0''), 2)],
      objs = ex_frames, next_obj = 3\<rparr>"

definition ex_idle_stations :: "Station list" where
  "ex_idle_stations = map (\<lambda>i. Station_init (''Station '' @ str_of_nat i)) [0 ..< NUM_STATIONS]"

text \<open>A replication in which no message arrives before \<open>TERMINATE_TIME\<close>.\<close>

definition ex_idle_acts :: "action list" where
  "ex_idle_acts = map (\<lambda>k. At k (Arrive_start 10000)) [0 ..< NUM_STATIONS] @ [Advance 10000]"

text \<open>A replication in which the only frame, of station 0, starts at 9990 and lasts 15.\<close>

definition ex_late_acts :: "action list" where
  "ex_late_acts =
     At 0 (Arrive_start 9990) # map (\<lambda>k. At k (Arrive_start 10000)) [1 ..< NUM_STATIONS]
     @ [Advance 9990, At 0 (Arrive_fire 10000), At 0 (Wfs_start 0), At 0 (Wfs_granted 0),
        At 0 (Tx_start 0 [0, 15]), Advance 10000]"

text \<open>A replication in which the only frame, of station 1, is sent over \<open>[9991, 9993)\<close>;
  the last two actions are enabled only if that frame is found to collide.\<close>

definition ex_ghost_acts :: "action list" where
  "ex_ghost_acts =
     [At 0 (Arrive_start 10000), At 1 (Arrive_start 9991)]
     @ map (\<lambda>k. At k (Arrive_start 10000)) [2 ..< NUM_STATIONS]
     @ [Advance 9991, At 1 (Arrive_fire 10000), At 1 (Wfs_start 0), At 1 (Wfs_granted 0),
        At 1 (Tx_start 0 [2]), Advance 9993, At 1 (Tx_frame_end 0), At 1 (Wait_start 0 10000),
        Advance 10000]"

text \<open>A replication up to the moment where station 1 has a frame over \<open>[10, 20)\<close> and
  station 2 a frame over \<open>[12, 14)\<close> on the air and the clock is at 14.\<close>

definition ex_pair_acts :: "action list" where
  "ex_pair_acts =
     [At 0 (Arrive_start 10000), At 1 (Arrive_start 10), At 2 (Arrive_start 12)]
     @ map (\<lambda>k. At k (Arrive_start 10000)) [3 ..< NUM_STATIONS]
     @ [Advance 10, At 1 (Arrive_fire 10000), At 1 (Wfs_start 0), At 1 (Wfs_granted 0),
        At 1 (Tx_start 0 [10]),
        Advance 12, At 2 (Arrive_fire 10000), At 2 (Wfs_start 0), At 2 (Wfs_granted 0),
        At 2 (Tx_start 0 [2]), Advance 14]"

text \<open>
  A replication with a collision: station 0 sends a frame over \<open>[30, 33)\<close>, station 1
  one over \<open>[31, 32)\<close>. Both retry, station 0 over \<open>[33, 36)\<close> and station 1 over
  \<open>[37, 38)\<close>, and station 0 sends a second message over \<open>[40, 42)\<close>.
\<close>

definition ex_collision_acts :: "action list" where
  "ex_collision_acts =
     [At 0 (Arrive_start 30), At 1 (Arrive_start 31)]
     @ map (\<lambda>k. At k (Arrive_start 10000)) [2 ..< NUM_STATIONS]
     @ [Advance 30, At 0 (Arrive_fire 10), At 0 (Wfs_start 0), At 0 (Wfs_granted 0),
        At 0 (Tx_start 0 [0, 3]),
        Advance 31, At 1 (Arrive_fire 10000), At 1 (Wfs_start 0), At 1 (Wfs_granted 0),
        At 1 (Tx_start 0 [1]),
        Advance 32, At 1 (Tx_frame_end 0), At 1 (Wait_start 0 5),
        Advance 33, At 0 (Tx_frame_end 0), At 0 (Wait_start 0 0), At 0 (Wait_end 0),
        At 0 (Tx_retry 0),
        Advance 36, At 0 (Tx_frame_end 0), At 0 (Wfs_finish 0), At 0 Release_event,
        Advance 37, At 1 (Wait_end 0), At 1 (Tx_retry 0),
        Advance 38, At 1 (Tx_frame_end 0), At 1 (Wfs_finish 0), At 1 Release_event,
        Advance 40, At 0 (Arrive_fire 10000), At 0 (Wfs_start 1), At 0 (Wfs_granted 1),
        At 0 (Tx_start 1 [2]),
        Advance 42, At 0 (Tx_frame_end 1), At 0 (Wfs_finish 1), At 0 Release_event,
        Advance 10000]"

text \<open>
  A replication in which station 0 sends one frame over \<open>[0, 23)\<close> and nothing more,
  and station 1 sends a frame over \<open>[24, 25)\<close> and one over \<open>[26, 9999)\<close>.
\<close>

definition ex_busy_acts :: "action list" where
  "ex_busy_acts =
     [At 0 (Arrive_start 0), At 1 (Arrive_start 24)]
     @ map (\<lambda>k. At k (Arrive_start 10000)) [2 ..< NUM_STATIONS]
     @ [At 0 (Arrive_fire 10000), At 0 (Wfs_start 0), At 0 (Wfs_granted 0),
        At 0 (Tx_start 0 [23]),
        Advance 23, At 0 (Tx_frame_end 0), At 0 (Wfs_finish 0), At 0 Release_event,
        Advance 24, At 1 (Arrive_fire 2), At 1 (Wfs_start 0), At 1 (Wfs_granted 0),
        At 1 (Tx_start 0 [1]),
        Advance 25, At 1 (Tx_frame_end 0), At 1 (Wfs_finish 0), At 1 Release_event,
        Advance 26, At 1 (Arrive_fire 10000), At 1 (Wfs_start 1), At 1 (Wfs_granted 1),
        At 1 (Tx_start 1 [9973]),
        Advance 9999, At 1 (Tx_frame_end 1), At 1 (Wfs_finish 1), At 1 Release_event,
        Advance 10000]"

text \<open>The replication with a collision, up to the moment where both first frames are on
  the air, and from there to its end.\<close>

definition ex_collision_head :: "action list" where
  "ex_collision_head = take 18 ex_collision_acts"

definition ex_collision_tail :: "action list" where
  "ex_collision_tail = drop 18 ex_collision_acts"


definition ex_reset_head :: "action list" where
  "ex_reset_head = take 28 ex_collision_acts"

section \<open>Properties\<close>

subsection \<open>Lemmas on the collision check\<close>

lemma scan_collision_iff:
  "scan_collision h frame fid kvs hc \<longleftrightarrow>
     hc \<or> (\<exists>(key, a) \<in> set kvs. key \<noteq> fid \<and> overlaps (h a) frame)"
proof (induction kvs arbitrary: hc)
  case Nil
  then show ?case by simp
next
  case (Cons x xs)
  obtain key a where x: "x = (key, a)" by (cases x)
  show ?case
    unfolding x scan_collision.simps Cons.IH
    by (simp add: overlaps_def del: split_paired_Ex) blast
qed

lemma set_all_retry_in:
  "(key, a) \<in> set kvs \<Longrightarrow> retry (set_all_retry kvs h a)"
proof (induction kvs arbitrary: h)
  case Nil
  then show ?case by simp
next
  case (Cons kv kvs)
  obtain k' a' where kv: "kv = (k', a')" by (cases kv)
  have keep: "\<And>h b. retry (h b) \<Longrightarrow> retry (set_all_retry kvs h b)"
  proof -
    fix h :: "addr \<Rightarrow> Frame" and b
    show "retry (h b) \<Longrightarrow> retry (set_all_retry kvs h b)"
    proof (induction kvs arbitrary: h)
      case Nil
      then show ?case by simp
    next
      case (Cons x xs)
      then show ?case by (cases x) simp
    qed
  qed
  show ?case
  proof (cases "(key, a) \<in> set kvs")
    case True
    with Cons.IH kv show ?thesis by simp
  next
    case False
    with Cons.prems kv have "a' = a" by simp
    with kv keep show ?thesis by simp
  qed
qed

lemma set_all_retry_mono:
  "retry (h b) \<Longrightarrow> retry (set_all_retry kvs h b)"
proof (induction kvs arbitrary: h)
  case Nil
  then show ?case by simp
next
  case (Cons x xs)
  then show ?case by (cases x) simp
qed

lemma set_all_retry_out:
  "b \<notin> snd ` set kvs \<Longrightarrow> set_all_retry kvs h b = h b"
proof (induction kvs arbitrary: h)
  case Nil
  then show ?case by simp
next
  case (Cons x xs)
  then show ?case by (cases x) simp
qed

lemma set_all_retry_fields:
  "start (set_all_retry kvs h b) = start (h b) \<and>
   end' (set_all_retry kvs h b) = end' (h b) \<and>
   frame_time (set_all_retry kvs h b) = frame_time (h b)"
proof (induction kvs arbitrary: h)
  case Nil
  then show ?case by simp
next
  case (Cons x xs)
  then show ?case by (cases x) simp
qed

lemma set_all_retry_cases:
  "set_all_retry kvs h b = h b \<or> set_all_retry kvs h b = (h b)\<lparr>retry := True\<rparr>"
proof (induction kvs arbitrary: h)
  case Nil
  then show ?case by simp
next
  case (Cons x xs)
  obtain k a where x: "x = (k, a)" by (cases x)
  let ?h = "h(a := (h a)\<lparr>retry := True\<rparr>)"
  have step: "set_all_retry (x # xs) h b = set_all_retry xs ?h b"
    using x by simp
  have IH: "set_all_retry xs ?h b = ?h b \<or> set_all_retry xs ?h b = (?h b)\<lparr>retry := True\<rparr>"
    by (rule Cons.IH)
  show ?case
  proof (cases "a = b")
    case True
    then have "?h b = (h b)\<lparr>retry := True\<rparr>" by simp
    with IH step show ?thesis by simp
  next
    case False
    then have "?h b = h b" by simp
    with IH step show ?thesis by simp
  qed
qed

lemma has_collision_iff:
  "has_collision c frame fid \<longleftrightarrow>
     (\<exists>(key, a) \<in> set (frames_in_transmit c).
        key \<noteq> fid \<and> overlaps (objs c a) (objs c frame))"
  by (simp add: has_collision_def scan_collision_iff)

subsection \<open>Collision check: what is reported and what is flagged\<close>

text \<open>
  C1. \<open>check_collision\<close> finds a collision exactly when an entry of the registry under
  another id holds a frame with \<open>other.end > frame.start\<close> and
  \<open>other.start < frame.end\<close>; when it finds one, every frame of the registry has its
  retry flag set afterwards, and when it finds none nothing changes.
\<close>

theorem check_collision_reports:
  "(has_collision c frame fid \<longleftrightarrow>
      (\<exists>(key, a) \<in> set (frames_in_transmit c).
         key \<noteq> fid \<and> end' (objs c a) > start (objs c frame) \<and> start (objs c a) < end' (objs c frame)))
   \<and> (has_collision c frame fid \<longrightarrow>
        (\<forall>(key, a) \<in> set (frames_in_transmit c). retry (objs (check_collision c frame fid) a)))
   \<and> (\<not> has_collision c frame fid \<longrightarrow> check_collision c frame fid = c)"
proof (intro conjI)
  show "has_collision c frame fid \<longleftrightarrow>
      (\<exists>(key, a) \<in> set (frames_in_transmit c).
         key \<noteq> fid \<and> end' (objs c a) > start (objs c frame) \<and> start (objs c a) < end' (objs c frame))"
    unfolding has_collision_iff overlaps_def ..
  show "has_collision c frame fid \<longrightarrow>
        (\<forall>(key, a) \<in> set (frames_in_transmit c). retry (objs (check_collision c frame fid) a))"
    by (auto simp: check_collision_def intro: set_all_retry_in)
  show "\<not> has_collision c frame fid \<longrightarrow> check_collision c frame fid = c"
    by (simp add: check_collision_def)
qed

theorem check_collision_reports_witness:
  "has_collision ex_channel 0 (''Station 0'', ''Frame 0'')
   \<and> retry (objs (check_collision ex_channel 0 (''Station 0'', ''Frame 0'')) 2)
   \<and> \<not> has_collision ex_channel 2 (''Station 2'', ''Frame 0'')
   \<and> check_collision ex_channel 2 (''Station 2'', ''Frame 0'') = ex_channel"
proof -
  have h: "has_collision ex_channel 0 (''Station 0'', ''Frame 0'')"
    by (simp add: has_collision_def ex_channel_def ex_frames_def Frame_init_def)
  have n: "\<not> has_collision ex_channel 2 (''Station 2'', ''Frame 0'')"
    by (simp add: has_collision_def ex_channel_def ex_frames_def Frame_init_def)
  have m: "((''Station 2'', ''Frame 0''), 2) \<in> set (frames_in_transmit ex_channel)"
    by (simp add: ex_channel_def)
  from check_collision_reports [of ex_channel 0 "(''Station 0'', ''Frame 0'')"] h m
  have "retry (objs (check_collision ex_channel 0 (''Station 0'', ''Frame 0'')) 2)"
    by blast
  moreover from check_collision_reports [of ex_channel 2 "(''Station 2'', ''Frame 0'')"] n
  have "check_collision ex_channel 2 (''Station 2'', ''Frame 0'') = ex_channel"
    by blast
  ultimately show ?thesis using h n by simp
qed

text \<open>
  C10. \<open>check_collision\<close> leaves the registry's entries as they are, no frame object
  changes its \<open>start\<close>, \<open>end\<close> or \<open>frame_time\<close>, a retry flag that is set stays set,
  and objects that are not in the registry are not touched.
\<close>

theorem check_collision_frame:
  "frames_in_transmit (check_collision c frame fid) = frames_in_transmit c
   \<and> next_obj (check_collision c frame fid) = next_obj c
   \<and> (\<forall>a. start (objs (check_collision c frame fid) a) = start (objs c a)
          \<and> end' (objs (check_collision c frame fid) a) = end' (objs c a)
          \<and> frame_time (objs (check_collision c frame fid) a) = frame_time (objs c a)
          \<and> (retry (objs c a) \<longrightarrow> retry (objs (check_collision c frame fid) a)))
   \<and> (\<forall>a. a \<notin> snd ` set (frames_in_transmit c) \<longrightarrow> objs (check_collision c frame fid) a = objs c a)"
  by (simp add: check_collision_def set_all_retry_fields set_all_retry_mono set_all_retry_out)

theorem check_collision_frame_witness:
  "frames_in_transmit (check_collision ex_channel 0 (''Station 0'', ''Frame 0''))
     = frames_in_transmit ex_channel
   \<and> start (objs (check_collision ex_channel 0 (''Station 0'', ''Frame 0'')) 1) = 2
   \<and> end' (objs (check_collision ex_channel 0 (''Station 0'', ''Frame 0'')) 1) = 4
   \<and> \<not> retry (objs ex_channel 1)
   \<and> retry (objs (check_collision ex_channel 0 (''Station 0'', ''Frame 0'')) 1)
   \<and> objs (check_collision ex_channel 0 (''Station 0'', ''Frame 0'')) 7 = objs ex_channel 7"
proof -
  have h: "has_collision ex_channel 0 (''Station 0'', ''Frame 0'')"
    by (simp add: has_collision_def ex_channel_def ex_frames_def Frame_init_def)
  have r: "retry (objs (check_collision ex_channel 0 (''Station 0'', ''Frame 0'')) 1)"
    using h by (simp add: check_collision_def ex_channel_def ex_frames_def Frame_init_def)
  have o: "(7::nat) \<notin> snd ` set (frames_in_transmit ex_channel)"
    by (simp add: ex_channel_def)
  from check_collision_frame [of ex_channel 0 "(''Station 0'', ''Frame 0'')"] o
  have "frames_in_transmit (check_collision ex_channel 0 (''Station 0'', ''Frame 0''))
          = frames_in_transmit ex_channel
        \<and> start (objs (check_collision ex_channel 0 (''Station 0'', ''Frame 0'')) 1) = start (objs ex_channel 1)
        \<and> end' (objs (check_collision ex_channel 0 (''Station 0'', ''Frame 0'')) 1) = end' (objs ex_channel 1)
        \<and> objs (check_collision ex_channel 0 (''Station 0'', ''Frame 0'')) 7 = objs ex_channel 7"
    by blast
  then show ?thesis using r
    by (simp add: ex_channel_def ex_frames_def Frame_init_def)
qed

subsection \<open>The system-wide report when no message was started\<close>

lemma totals_idle:
  "\<forall>s \<in> set stations. num_initial_transmits s = 0 \<Longrightarrow>
   fst (snd (snd (snd (totals stations (a, b, c, d, e))))) = d"
  by (induction stations arbitrary: a b c d e) auto

text \<open>
  C3. With no initial transmission in any station, \<open>generate_report_single_replication\<close>
  does not report a default mean: the division \<open>float(total_retries)/total_initial_transmits\<close>
  raises \<open>ZeroDivisionError\<close>. So does the replication in which no message arrives
  before \<open>TERMINATE_TIME\<close>.
\<close>

theorem report_no_initial_transmits_raises:
  "generate_report_single_replication [] [] [] ex_idle_stations = Inl ZeroDivisionError
   \<and> replication_error ex_idle_acts empty_channel = Some ZeroDivisionError"
proof (rule conjI)
  show "replication_error ex_idle_acts empty_channel = Some ZeroDivisionError"
    by code_simp
next
  have z: "\<forall>s \<in> set ex_idle_stations. num_initial_transmits s = 0"
    by (simp add: ex_idle_stations_def Station_init_def)
  obtain a b c d e where t: "totals ex_idle_stations (0, 0, 0, 0, 0) = (a, b, c, d, e)"
    by (metis prod_cases5)
  from totals_idle [OF z, of 0 0 0 0 0] t have "d = 0" by simp
  with t show "generate_report_single_replication [] [] [] ex_idle_stations = Inl ZeroDivisionError"
    by (simp add: generate_report_single_replication_def float_div_def Let_def)
qed

subsection \<open>The steps of a station, case by case\<close>


lemma arrive_startE:
  assumes "arrive_start t nd R = Some nd'"
  obtains "a_pc (arrive nd) = Arrive_created" "0 \<le> R"
    "nd' = nd\<lparr>arrive := \<lparr>a_pc = Arrive_yield_timeout, a_i = 0, a_wake = t + R\<rparr>\<rparr>"
  using assms by (simp add: arrive_start_def split: if_splits)

lemma arrive_fireE:
  assumes "arrive_fire t nd R = Some nd'"
  obtains "a_pc (arrive nd) = Arrive_yield_timeout" "t = a_wake (arrive nd)" "0 \<le> R"
    "nd' = nd\<lparr>msgs := msgs nd @ [msg_init (''Frame '' @ str_of_nat (a_i (arrive nd)))],
               arrive := (arrive nd)\<lparr>a_i := Suc (a_i (arrive nd)), a_wake := t + R\<rparr>\<rparr>"
  using assms by (simp add: arrive_fire_def split: if_splits)

lemma wfs_startE:
  assumes "wfs_start t nd i = Some nd'"
  obtains "i < length (msgs nd)" "m_pc (msgs nd ! i) = Wfs_created"
    "nd' = nd\<lparr>station := (station nd)\<lparr>arrivals := arrivals (station nd) @ [\<lparr>arr_name = m_name (msgs nd ! i), arr_time = t\<rparr>],
                    last_event := t, n := n (station nd) + 1,
                    server := request (server (station nd)) i\<rparr>,
               msgs := (msgs nd)[i := (msgs nd ! i)\<lparr>m_pc := Wfs_yield_req\<rparr>]\<rparr>"
  using assms by (simp add: wfs_start_def at_pc_def set_msg_def Let_def split: if_splits)

lemma wfs_grantedE:
  assumes "wfs_granted t nd i = Some (Inr nd')"
  obtains x rest where "i < length (msgs nd)" "m_pc (msgs nd ! i) = Wfs_yield_req"
    "i \<in> set (users (server (station nd)))" "arrivals (station nd) = x # rest"
    "nd' = nd\<lparr>station := (station nd)\<lparr>arrivals := rest\<rparr>,
               msgs := (msgs nd)[i := (msgs nd ! i)\<lparr>m_pc := Tx_created, wfs_transmit_time := t\<rparr>]\<rparr>"
  using assms by (simp add: wfs_granted_def at_pc_def set_msg_def split: if_splits list.splits)

lemma tx_attempt_eq:
  "tx_attempt t c nd i m =
     (c\<lparr>objs := (objs c)(next_obj c := create_frame t (tx_frame_time m)),
        next_obj := Suc (next_obj c),
        frames_in_transmit := dict_set (frames_in_transmit c) (name (station nd), m_name m) (next_obj c)\<rparr>,
      nd\<lparr>msgs := (msgs nd)[i := m\<lparr>m_pc := Tx_yield_timeout, tx_frame := next_obj c, tx_transmit_time := t,
                   m_wake := t + tx_frame_time m,
                   h_attempts := h_attempts m @ [tx_frame_time m]\<rparr>]\<rparr>)"
  by (simp add: tx_attempt_def new_obj_def add_frame_in_transmit_def set_msg_def create_frame_def Frame_init_def)

lemma tx_startE:
  assumes "tx_start t c nd i Rs = Some (c', nd')"
  obtains ft where "i < length (msgs nd)" "m_pc (msgs nd ! i) = Tx_created"
    "generate_frame_time Rs = Some ft"
    "c' = c\<lparr>objs := (objs c)(next_obj c := create_frame t ft),
        next_obj := Suc (next_obj c),
        frames_in_transmit := dict_set (frames_in_transmit c) (name (station nd), m_name (msgs nd ! i)) (next_obj c)\<rparr>"
    "nd' = nd\<lparr>station := (station nd)\<lparr>num_initial_transmits := num_initial_transmits (station nd) + 1\<rparr>,
        msgs := (msgs nd)[i := (msgs nd ! i)\<lparr>tx_frame_time := ft,
                   h_frame_draws := Suc (h_frame_draws (msgs nd ! i)),
                   h_initial_counts := Suc (h_initial_counts (msgs nd ! i)),
                   m_pc := Tx_yield_timeout, tx_frame := next_obj c, tx_transmit_time := t,
                   m_wake := t + ft,
                   h_attempts := h_attempts (msgs nd ! i) @ [ft]\<rparr>]\<rparr>"
  using assms by (simp add: tx_start_def at_pc_def tx_attempt_eq Let_def split: if_splits option.splits)

lemma tx_retryE:
  assumes "tx_retry t c nd i = Some (c', nd')"
  obtains "i < length (msgs nd)" "m_pc (msgs nd ! i) = Wait_done"
    "c' = c\<lparr>objs := (objs c)(next_obj c := create_frame t (tx_frame_time (msgs nd ! i))),
        next_obj := Suc (next_obj c),
        frames_in_transmit := dict_set (frames_in_transmit c) (name (station nd), m_name (msgs nd ! i)) (next_obj c)\<rparr>"
    "nd' = nd\<lparr>msgs := (msgs nd)[i := (msgs nd ! i)\<lparr>m_pc := Tx_yield_timeout, tx_frame := next_obj c, tx_transmit_time := t,
                   m_wake := t + tx_frame_time (msgs nd ! i),
                   h_attempts := h_attempts (msgs nd ! i) @ [tx_frame_time (msgs nd ! i)]\<rparr>]\<rparr>"
  using assms by (simp add: tx_retry_def at_pc_def tx_attempt_eq Let_def split: if_splits)

lemma wait_startE:
  assumes "wait_start t nd i R = Some nd'"
  obtains "i < length (msgs nd)" "m_pc (msgs nd ! i) = Wait_created" "0 \<le> R"
    "nd' = nd\<lparr>msgs := (msgs nd)[i := (msgs nd ! i)\<lparr>m_pc := Wait_yield_timeout, m_wake := t + R\<rparr>]\<rparr>"
  using assms by (simp add: wait_start_def at_pc_def set_msg_def split: if_splits)

lemma wait_endE:
  assumes "wait_end t nd i = Some nd'"
  obtains "i < length (msgs nd)" "m_pc (msgs nd ! i) = Wait_yield_timeout" "t = m_wake (msgs nd ! i)"
    "nd' = nd\<lparr>msgs := (msgs nd)[i := (msgs nd ! i)\<lparr>m_pc := Wait_done\<rparr>]\<rparr>"
  using assms by (simp add: wait_end_def at_pc_def set_msg_def split: if_splits)

lemma release_eventE:
  assumes "release_event nd = Some nd'"
  obtains "releases (server (station nd)) > 0"
    "nd' = nd\<lparr>station := (station nd)\<lparr>server := release_processed (server (station nd))\<rparr>\<rparr>"
  using assms by (simp add: release_event_def split: if_splits)


lemma wfs_finishE:
  assumes "wfs_finish t nd i = Some nd'"
  obtains "i < length (msgs nd)" "m_pc (msgs nd ! i) = Tx_done"
    "initial_reset_completed (station nd) \<or> t < TRANSIENT_TIME"
    "nd' = nd\<lparr>station := (station nd)\<lparr>nt := nt (station nd) + 1,
                    st := st (station nd) + (t - wfs_transmit_time (msgs nd ! i)),
                    last_event := t, n := n (station nd) - 1,
                    server := release (server (station nd)) i\<rparr>,
               msgs := (msgs nd)[i := (msgs nd ! i)\<lparr>m_pc := Wfs_done\<rparr>]\<rparr>"
  | "i < length (msgs nd)" "m_pc (msgs nd ! i) = Tx_done"
    "\<not> initial_reset_completed (station nd)" "TRANSIENT_TIME \<le> t"
    "nd' = nd\<lparr>station := (station nd)\<lparr>nt := 0, st := 0, num_retries := 0,
                    num_initial_transmits := 0, busy_time := 0,
                    last_event := t, n := n (station nd) - 1,
                    initial_reset_completed := True,
                    server := release (server (station nd)) i\<rparr>,
               h_resets := h_resets nd @ [t],
               msgs := (msgs nd)[i := (msgs nd ! i)\<lparr>m_pc := Wfs_done\<rparr>]\<rparr>"
  using assms
  by (cases "\<not> initial_reset_completed (station nd) \<and> TRANSIENT_TIME \<le> t")
     (auto simp add: wfs_finish_def at_pc_def set_msg_def Let_def reset_statistical_counters_def
       split: if_splits)

lemma tx_frame_endE:
  assumes "tx_frame_end t c nd i = Some (Inr (c', nd'))"
  obtains a where "i < length (msgs nd)" "m_pc (msgs nd ! i) = Tx_yield_timeout"
    "t = m_wake (msgs nd ! i)"
    "dict_get (frames_in_transmit c) (name (station nd), m_name (msgs nd ! i)) = Some a"
    "c' = (check_collision c (tx_frame (msgs nd ! i)) (name (station nd), m_name (msgs nd ! i)))
            \<lparr>frames_in_transmit := dict_del (frames_in_transmit c) (name (station nd), m_name (msgs nd ! i))\<rparr>"
    "retry (objs c' (tx_frame (msgs nd ! i)))"
    "nd' = nd\<lparr>station := (station nd)\<lparr>num_retries := num_retries (station nd) + 1\<rparr>,
               msgs := (msgs nd)[i := (msgs nd ! i)\<lparr>m_pc := Wait_created\<rparr>]\<rparr>"
  | a where "i < length (msgs nd)" "m_pc (msgs nd ! i) = Tx_yield_timeout"
    "t = m_wake (msgs nd ! i)"
    "dict_get (frames_in_transmit c) (name (station nd), m_name (msgs nd ! i)) = Some a"
    "c' = (check_collision c (tx_frame (msgs nd ! i)) (name (station nd), m_name (msgs nd ! i)))
            \<lparr>frames_in_transmit := dict_del (frames_in_transmit c) (name (station nd), m_name (msgs nd ! i))\<rparr>"
    "\<not> retry (objs c' (tx_frame (msgs nd ! i)))"
    "nd' = nd\<lparr>station := (station nd)\<lparr>busy_time := busy_time (station nd) + (t - tx_transmit_time (msgs nd ! i))\<rparr>,
               msgs := (msgs nd)[i := (msgs nd ! i)\<lparr>m_pc := Tx_done\<rparr>]\<rparr>"
proof -
  let ?fid = "(name (station nd), m_name (msgs nd ! i))"
  let ?c1 = "check_collision c (tx_frame (msgs nd ! i)) ?fid"
  have reg: "frames_in_transmit ?c1 = frames_in_transmit c"
    by (simp add: check_collision_def)
  from assms have g: "i < length (msgs nd)" "m_pc (msgs nd ! i) = Tx_yield_timeout" "t = m_wake (msgs nd ! i)"
    by (simp_all add: tx_frame_end_def at_pc_def split: if_splits)
  from assms g obtain a where a: "dict_get (frames_in_transmit c) ?fid = Some a"
    by (auto simp add: tx_frame_end_def at_pc_def Let_def remove_frame_in_transmit_def reg
          split: option.splits)
  let ?c2 = "?c1\<lparr>frames_in_transmit := dict_del (frames_in_transmit c) ?fid\<rparr>"
  from assms g a have c': "c' = ?c2"
    by (auto simp add: tx_frame_end_def at_pc_def Let_def remove_frame_in_transmit_def reg
          split: if_splits)
  show thesis
  proof (cases "retry (objs ?c2 (tx_frame (msgs nd ! i)))")
    case True
    with assms g a have "nd' = nd\<lparr>station := (station nd)\<lparr>num_retries := num_retries (station nd) + 1\<rparr>,
               msgs := (msgs nd)[i := (msgs nd ! i)\<lparr>m_pc := Wait_created\<rparr>]\<rparr>"
      by (simp add: tx_frame_end_def at_pc_def Let_def remove_frame_in_transmit_def reg set_msg_def)
    with g a c' True that(1) show thesis by blast
  next
    case False
    with assms g a have "nd' = nd\<lparr>station := (station nd)\<lparr>busy_time := busy_time (station nd) + (m_wake (msgs nd ! i) - tx_transmit_time (msgs nd ! i))\<rparr>,
               msgs := (msgs nd)[i := (msgs nd ! i)\<lparr>m_pc := Tx_done\<rparr>]\<rparr>"
      by (simp add: tx_frame_end_def at_pc_def Let_def remove_frame_in_transmit_def reg set_msg_def)
    with g a c' False that(2) show thesis by blast
  qed
qed


lemma node_stepE [consumes 1, case_names Arrive_start Arrive_fire Wfs_start Wfs_granted Tx_start
    Tx_collided Tx_success Wait_start Wait_end Tx_retry Wfs_finish Wfs_finish_reset Release]:
  assumes "node_step a t c nd = Some (Inr (c', nd'))"
  obtains
    (Arrive_start) R where "a = Arrive_start R" "c' = c"
      "a_pc (arrive nd) = Arrive_created" "0 \<le> R"
      "nd' = nd\<lparr>arrive := \<lparr>a_pc = Arrive_yield_timeout, a_i = 0, a_wake = t + R\<rparr>\<rparr>"
  | (Arrive_fire) R where "a = Arrive_fire R" "c' = c"
      "a_pc (arrive nd) = Arrive_yield_timeout" "t = a_wake (arrive nd)" "0 \<le> R"
      "nd' = nd\<lparr>msgs := msgs nd @ [msg_init (''Frame '' @ str_of_nat (a_i (arrive nd)))],
               arrive := (arrive nd)\<lparr>a_i := Suc (a_i (arrive nd)), a_wake := t + R\<rparr>\<rparr>"
  | (Wfs_start) i where "a = Wfs_start i" "c' = c"
      "i < length (msgs nd)" "m_pc (msgs nd ! i) = Wfs_created"
      "nd' = nd\<lparr>station := (station nd)\<lparr>arrivals := arrivals (station nd) @ [\<lparr>arr_name = m_name (msgs nd ! i), arr_time = t\<rparr>],
                    last_event := t, n := n (station nd) + 1,
                    server := request (server (station nd)) i\<rparr>,
               msgs := (msgs nd)[i := (msgs nd ! i)\<lparr>m_pc := Wfs_yield_req\<rparr>]\<rparr>"
  | (Wfs_granted) i x rest where "a = Wfs_granted i" "c' = c"
      "i < length (msgs nd)" "m_pc (msgs nd ! i) = Wfs_yield_req"
      "i \<in> set (users (server (station nd)))" "arrivals (station nd) = x # rest"
      "nd' = nd\<lparr>station := (station nd)\<lparr>arrivals := rest\<rparr>,
               msgs := (msgs nd)[i := (msgs nd ! i)\<lparr>m_pc := Tx_created, wfs_transmit_time := t\<rparr>]\<rparr>"
  | (Tx_start) i Rs ft where "a = Tx_start i Rs"
      "i < length (msgs nd)" "m_pc (msgs nd ! i) = Tx_created"
      "generate_frame_time Rs = Some ft"
      "c' = c\<lparr>objs := (objs c)(next_obj c := create_frame t ft),
          next_obj := Suc (next_obj c),
          frames_in_transmit := dict_set (frames_in_transmit c) (name (station nd), m_name (msgs nd ! i)) (next_obj c)\<rparr>"
      "nd' = nd\<lparr>station := (station nd)\<lparr>num_initial_transmits := num_initial_transmits (station nd) + 1\<rparr>,
          msgs := (msgs nd)[i := (msgs nd ! i)\<lparr>tx_frame_time := ft,
                   h_frame_draws := Suc (h_frame_draws (msgs nd ! i)),
                   h_initial_counts := Suc (h_initial_counts (msgs nd ! i)),
                   m_pc := Tx_yield_timeout, tx_frame := next_obj c, tx_transmit_time := t,
                   m_wake := t + ft,
                   h_attempts := h_attempts (msgs nd ! i) @ [ft]\<rparr>]\<rparr>"
  | (Tx_collided) i x where "a = Tx_frame_end i"
      "i < length (msgs nd)" "m_pc (msgs nd ! i) = Tx_yield_timeout"
      "t = m_wake (msgs nd ! i)"
      "dict_get (frames_in_transmit c) (name (station nd), m_name (msgs nd ! i)) = Some x"
      "c' = (check_collision c (tx_frame (msgs nd ! i)) (name (station nd), m_name (msgs nd ! i)))
            \<lparr>frames_in_transmit := dict_del (frames_in_transmit c) (name (station nd), m_name (msgs nd ! i))\<rparr>"
      "retry (objs c' (tx_frame (msgs nd ! i)))"
      "nd' = nd\<lparr>station := (station nd)\<lparr>num_retries := num_retries (station nd) + 1\<rparr>,
               msgs := (msgs nd)[i := (msgs nd ! i)\<lparr>m_pc := Wait_created\<rparr>]\<rparr>"
  | (Tx_success) i x where "a = Tx_frame_end i"
      "i < length (msgs nd)" "m_pc (msgs nd ! i) = Tx_yield_timeout"
      "t = m_wake (msgs nd ! i)"
      "dict_get (frames_in_transmit c) (name (station nd), m_name (msgs nd ! i)) = Some x"
      "c' = (check_collision c (tx_frame (msgs nd ! i)) (name (station nd), m_name (msgs nd ! i)))
            \<lparr>frames_in_transmit := dict_del (frames_in_transmit c) (name (station nd), m_name (msgs nd ! i))\<rparr>"
      "\<not> retry (objs c' (tx_frame (msgs nd ! i)))"
      "nd' = nd\<lparr>station := (station nd)\<lparr>busy_time := busy_time (station nd) + (t - tx_transmit_time (msgs nd ! i))\<rparr>,
               msgs := (msgs nd)[i := (msgs nd ! i)\<lparr>m_pc := Tx_done\<rparr>]\<rparr>"
  | (Wait_start) i R where "a = Wait_start i R" "c' = c"
      "i < length (msgs nd)" "m_pc (msgs nd ! i) = Wait_created" "0 \<le> R"
      "nd' = nd\<lparr>msgs := (msgs nd)[i := (msgs nd ! i)\<lparr>m_pc := Wait_yield_timeout, m_wake := t + R\<rparr>]\<rparr>"
  | (Wait_end) i where "a = Wait_end i" "c' = c"
      "i < length (msgs nd)" "m_pc (msgs nd ! i) = Wait_yield_timeout" "t = m_wake (msgs nd ! i)"
      "nd' = nd\<lparr>msgs := (msgs nd)[i := (msgs nd ! i)\<lparr>m_pc := Wait_done\<rparr>]\<rparr>"
  | (Tx_retry) i where "a = Tx_retry i"
      "i < length (msgs nd)" "m_pc (msgs nd ! i) = Wait_done"
      "c' = c\<lparr>objs := (objs c)(next_obj c := create_frame t (tx_frame_time (msgs nd ! i))),
          next_obj := Suc (next_obj c),
          frames_in_transmit := dict_set (frames_in_transmit c) (name (station nd), m_name (msgs nd ! i)) (next_obj c)\<rparr>"
      "nd' = nd\<lparr>msgs := (msgs nd)[i := (msgs nd ! i)\<lparr>m_pc := Tx_yield_timeout, tx_frame := next_obj c, tx_transmit_time := t,
                   m_wake := t + tx_frame_time (msgs nd ! i),
                   h_attempts := h_attempts (msgs nd ! i) @ [tx_frame_time (msgs nd ! i)]\<rparr>]\<rparr>"
  | (Wfs_finish) i where "a = Wfs_finish i" "c' = c"
      "i < length (msgs nd)" "m_pc (msgs nd ! i) = Tx_done"
      "initial_reset_completed (station nd) \<or> t < TRANSIENT_TIME"
      "nd' = nd\<lparr>station := (station nd)\<lparr>nt := nt (station nd) + 1,
                    st := st (station nd) + (t - wfs_transmit_time (msgs nd ! i)),
                    last_event := t, n := n (station nd) - 1,
                    server := release (server (station nd)) i\<rparr>,
               msgs := (msgs nd)[i := (msgs nd ! i)\<lparr>m_pc := Wfs_done\<rparr>]\<rparr>"
  | (Wfs_finish_reset) i where "a = Wfs_finish i" "c' = c"
      "i < length (msgs nd)" "m_pc (msgs nd ! i) = Tx_done"
      "\<not> initial_reset_completed (station nd)" "TRANSIENT_TIME \<le> t"
      "nd' = nd\<lparr>station := (station nd)\<lparr>nt := 0, st := 0, num_retries := 0,
                    num_initial_transmits := 0, busy_time := 0,
                    last_event := t, n := n (station nd) - 1,
                    initial_reset_completed := True,
                    server := release (server (station nd)) i\<rparr>,
               h_resets := h_resets nd @ [t],
               msgs := (msgs nd)[i := (msgs nd ! i)\<lparr>m_pc := Wfs_done\<rparr>]\<rparr>"
  | (Release) "a = Release_event" "c' = c"
      "releases (server (station nd)) > 0"
      "nd' = nd\<lparr>station := (station nd)\<lparr>server := release_processed (server (station nd))\<rparr>\<rparr>"
proof (cases a)
  case (Arrive_start R)
  with assms have "arrive_start t nd R = Some nd'" "c' = c" by (auto simp: keep_chan_def)
  then show thesis using that(1) Arrive_start by (elim arrive_startE) blast
next
  case (Arrive_fire R)
  with assms have "arrive_fire t nd R = Some nd'" "c' = c" by (auto simp: keep_chan_def)
  then show thesis using that(2) Arrive_fire by (elim arrive_fireE) blast
next
  case (Wfs_start i)
  with assms have "wfs_start t nd i = Some nd'" "c' = c" by (auto simp: keep_chan_def)
  then show thesis using that(3) Wfs_start by (elim wfs_startE) blast
next
  case (Wfs_granted i)
  with assms obtain r where r: "wfs_granted t nd i = Some r"
      "(case r of Inl e \<Rightarrow> Inl e | Inr x \<Rightarrow> Inr (c, x)) = Inr (c', nd')"
    by auto
  then have "wfs_granted t nd i = Some (Inr nd')" "c' = c"
    by (cases r; simp)+
  then show thesis using that(4) Wfs_granted by (elim wfs_grantedE) blast
next
  case (Tx_start i Rs)
  with assms have "tx_start t c nd i Rs = Some (c', nd')" by auto
  then show thesis using that(5) Tx_start by (elim tx_startE) blast
next
  case (Tx_frame_end i)
  with assms have "tx_frame_end t c nd i = Some (Inr (c', nd'))" by simp
  then show thesis using that(6,7) Tx_frame_end by (elim tx_frame_endE) blast+
next
  case (Wait_start i R)
  with assms have "wait_start t nd i R = Some nd'" "c' = c" by (auto simp: keep_chan_def)
  then show thesis using that(8) Wait_start by (elim wait_startE) blast
next
  case (Wait_end i)
  with assms have "wait_end t nd i = Some nd'" "c' = c" by (auto simp: keep_chan_def)
  then show thesis using that(9) Wait_end by (elim wait_endE) blast
next
  case (Tx_retry i)
  with assms have "tx_retry t c nd i = Some (c', nd')" by auto
  then show thesis using that(10) Tx_retry by (elim tx_retryE) blast
next
  case (Wfs_finish i)
  with assms have "wfs_finish t nd i = Some nd'" "c' = c" by (auto simp: keep_chan_def)
  then show thesis using that(11,12) Wfs_finish by (elim wfs_finishE) blast+
next
  case Release_event
  with assms have "release_event nd = Some nd'" "c' = c" by (auto simp: keep_chan_def)
  then show thesis using that(13) Release_event by (elim release_eventE) blast
qed

subsection \<open>The server and the counters of a station\<close>

lemma started_active: "started_pc p \<Longrightarrow> active_pc p"
  by (auto simp: started_pc_def active_pc_def)

lemma srv_ok_holder: "srv_ok us pcs \<Longrightarrow> i < length pcs \<Longrightarrow> active_pc (pcs ! i) \<Longrightarrow> us = [i]"
  by (simp add: srv_ok_def)

lemma srv_ok_member: "srv_ok us pcs \<Longrightarrow> i \<in> set us \<Longrightarrow> us = [i]"
  by (cases us) (auto simp: srv_ok_def)

lemma srv_ok_others:
  assumes "srv_ok us pcs" "us = [i]" "j < length pcs" "j \<noteq> i"
  shows "\<not> active_pc (pcs ! j)"
  using assms by (auto simp: srv_ok_def)

lemma srv_ok_upd_inactive:
  assumes "srv_ok us pcs" "\<not> active_pc p"
  shows "srv_ok us (pcs[i := p])"
proof -
  have "us = [j]" if "j < length pcs" "active_pc ((pcs[i := p]) ! j)" for j
  proof (cases "j = i")
    case True
    with that assms(2) show ?thesis by simp
  next
    case False
    with that assms(1) show ?thesis by (simp add: srv_ok_def)
  qed
  with assms(1) show ?thesis by (simp add: srv_ok_def)
qed

lemma srv_ok_upd_holder:
  assumes "srv_ok us pcs" "us = [i]"
  shows "srv_ok us (pcs[i := p])"
proof -
  have "us = [j]" if "j < length pcs" "active_pc ((pcs[i := p]) ! j)" for j
  proof (cases "j = i")
    case True
    with assms(2) show ?thesis by simp
  next
    case False
    with that assms(1) show ?thesis by (simp add: srv_ok_def)
  qed
  with assms(1) show ?thesis by (simp add: srv_ok_def)
qed

lemma srv_ok_append:
  assumes "srv_ok us pcs" "\<not> active_pc p"
  shows "srv_ok us (pcs @ [p])"
  using assms by (auto simp: srv_ok_def nth_append less_Suc_eq)

lemma srv_ok_free:
  assumes "srv_ok [] pcs"
  shows "srv_ok [p] pcs"
  using assms by (auto simp: srv_ok_def)

lemma srv_ok_trigger_put:
  assumes "srv_ok (users r) pcs"
  shows "srv_ok (users (trigger_put r)) pcs"
proof (cases "put_queue r")
  case Nil
  with assms show ?thesis by (simp add: trigger_put_def)
next
  case (Cons p q)
  show ?thesis
  proof (cases "users r")
    case Nil
    with Cons assms srv_ok_free [of pcs p] show ?thesis by (simp add: trigger_put_def)
  next
    case (Cons u us)
    with \<open>put_queue r = p # q\<close> assms show ?thesis by (simp add: trigger_put_def)
  qed
qed

lemma srv_ok_release:
  assumes "srv_ok us pcs" "i < length pcs" "active_pc (pcs ! i)"
  shows "srv_ok (remove1 i us) (pcs[i := Wfs_done])"
proof -
  from assms have us: "us = [i]" by (rule srv_ok_holder)
  have "\<And>j. j < length pcs \<Longrightarrow> \<not> active_pc ((pcs[i := Wfs_done]) ! j)"
  proof -
    fix j assume j: "j < length pcs"
    show "\<not> active_pc ((pcs[i := Wfs_done]) ! j)"
    proof (cases "j = i")
      case True
      with j show ?thesis by (simp add: active_pc_def)
    next
      case False
      with srv_ok_others [OF assms(1) us j] j show ?thesis by simp
    qed
  qed
  with us show ?thesis by (simp add: srv_ok_def)
qed

lemma server_inv_step:
  assumes "node_step a t c nd = Some (Inr (c', nd'))" and inv: "server_inv nd"
  shows "server_inv nd'"
  using assms(1)
proof (cases rule: node_stepE)
  case (Arrive_start R)
  with inv show ?thesis by (simp add: server_inv_def)
next
  case (Arrive_fire R)
  with inv show ?thesis
    by (simp add: server_inv_def srv_ok_append msg_init_def active_pc_def)
next
  case (Wfs_start i)
  with inv show ?thesis
    by (simp add: server_inv_def request_def map_update srv_ok_upd_inactive srv_ok_trigger_put active_pc_def)
next
  case (Wfs_granted i x rest)
  with inv have "users (server (station nd)) = [i]"
    by (auto simp: server_inv_def dest: srv_ok_member)
  with Wfs_granted inv show ?thesis
    by (simp add: server_inv_def map_update srv_ok_upd_holder)
next
  case (Tx_start i Rs ft)
  with inv have "users (server (station nd)) = [i]"
    by (auto simp: server_inv_def active_pc_def dest: srv_ok_holder)
  with Tx_start inv show ?thesis
    by (simp add: server_inv_def map_update srv_ok_upd_holder)
next
  case (Tx_collided i x)
  with inv have "users (server (station nd)) = [i]"
    by (auto simp: server_inv_def active_pc_def dest: srv_ok_holder)
  with Tx_collided inv show ?thesis
    by (simp add: server_inv_def map_update srv_ok_upd_holder)
next
  case (Tx_success i x)
  with inv have "users (server (station nd)) = [i]"
    by (auto simp: server_inv_def active_pc_def dest: srv_ok_holder)
  with Tx_success inv show ?thesis
    by (simp add: server_inv_def map_update srv_ok_upd_holder)
next
  case (Wait_start i R)
  with inv have "users (server (station nd)) = [i]"
    by (auto simp: server_inv_def active_pc_def dest: srv_ok_holder)
  with Wait_start inv show ?thesis
    by (simp add: server_inv_def map_update srv_ok_upd_holder)
next
  case (Wait_end i)
  with inv have "users (server (station nd)) = [i]"
    by (auto simp: server_inv_def active_pc_def dest: srv_ok_holder)
  with Wait_end inv show ?thesis
    by (simp add: server_inv_def map_update srv_ok_upd_holder)
next
  case (Tx_retry i)
  with inv have "users (server (station nd)) = [i]"
    by (auto simp: server_inv_def active_pc_def dest: srv_ok_holder)
  with Tx_retry inv show ?thesis
    by (simp add: server_inv_def map_update srv_ok_upd_holder)
next
  case (Wfs_finish i)
  with inv have "srv_ok (remove1 i (users (server (station nd)))) ((map m_pc (msgs nd))[i := Wfs_done])"
    by (intro srv_ok_release) (simp_all add: server_inv_def active_pc_def)
  with Wfs_finish show ?thesis
    by (simp add: server_inv_def map_update release_def)
next
  case (Wfs_finish_reset i)
  with inv have "srv_ok (remove1 i (users (server (station nd)))) ((map m_pc (msgs nd))[i := Wfs_done])"
    by (intro srv_ok_release) (simp_all add: server_inv_def active_pc_def)
  with Wfs_finish_reset show ?thesis
    by (simp add: server_inv_def map_update release_def)
next
  case Release
  with inv show ?thesis
    by (simp add: server_inv_def release_processed_def srv_ok_trigger_put)
qed


lemma any_started_upd_holder:
  assumes "srv_ok us pcs" "i < length pcs" "active_pc (pcs ! i)"
  shows "any_started (pcs[i := p]) = started_pc p"
proof -
  from assms have us: "us = [i]" by (rule srv_ok_holder)
  have others: "\<not> started_pc ((pcs[i := p]) ! j)" if "j < length pcs" "j \<noteq> i" for j
    using srv_ok_others [OF assms(1) us that] that started_active by auto
  show ?thesis
  proof
    assume "any_started (pcs[i := p])"
    then obtain j where j: "j < length pcs" "started_pc ((pcs[i := p]) ! j)"
      by (auto simp: any_started_def)
    with others have "j = i" by blast
    with j show "started_pc p" by simp
  next
    assume "started_pc p"
    with assms(2) have "i < length (pcs[i := p]) \<and> started_pc ((pcs[i := p]) ! i)" by simp
    then show "any_started (pcs[i := p])" unfolding any_started_def by blast
  qed
qed

lemma any_started_holder:
  assumes "srv_ok us pcs" "i < length pcs" "active_pc (pcs ! i)"
  shows "any_started pcs = started_pc (pcs ! i)"
  using any_started_upd_holder [OF assms, of "pcs ! i"] by simp

lemma any_started_upd_idle:
  assumes "i < length pcs" "\<not> started_pc (pcs ! i)" "\<not> started_pc p"
  shows "any_started (pcs[i := p]) = any_started pcs"
proof -
  have "started_pc ((pcs[i := p]) ! j) = started_pc (pcs ! j)" if "j < length pcs" for j
    using that assms by (cases "j = i") simp_all
  then show ?thesis by (auto simp: any_started_def)
qed

lemma any_started_append:
  assumes "\<not> started_pc p"
  shows "any_started (pcs @ [p]) = any_started pcs"
  using assms by (auto simp: any_started_def nth_append less_Suc_eq)

lemma count_inv_step:
  assumes "node_step a t c nd = Some (Inr (c', nd'))" and srv: "server_inv nd" and inv: "count_inv nd"
  shows "count_inv nd'"
  using assms(1)
proof (cases rule: node_stepE)
  case (Arrive_start R)
  with inv show ?thesis by (simp add: count_inv_def)
next
  case (Arrive_fire R)
  with inv show ?thesis
    by (simp add: count_inv_def any_started_append msg_init_def started_pc_def)
next
  case (Wfs_start i)
  with inv show ?thesis
    by (simp add: count_inv_def map_update any_started_upd_idle started_pc_def)
next
  case (Wfs_granted i x rest)
  with inv show ?thesis
    by (simp add: count_inv_def map_update any_started_upd_idle started_pc_def)
next
  case (Tx_start i Rs ft)
  with srv have "any_started (map m_pc (msgs nd)) = False"
    "any_started ((map m_pc (msgs nd))[i := Tx_yield_timeout]) = True"
    unfolding server_inv_def
    by (simp_all add: any_started_holder [where i = i] any_started_upd_holder [where i = i]
          active_pc_def started_pc_def)
  with Tx_start inv show ?thesis
    by (simp add: count_inv_def map_update)
next
  case (Tx_collided i x)
  with srv have "any_started (map m_pc (msgs nd)) = True"
    "any_started ((map m_pc (msgs nd))[i := Wait_created]) = True"
    unfolding server_inv_def
    by (simp_all add: any_started_holder [where i = i] any_started_upd_holder [where i = i]
          active_pc_def started_pc_def)
  with Tx_collided inv show ?thesis
    by (simp add: count_inv_def map_update)
next
  case (Tx_success i x)
  with srv have "any_started (map m_pc (msgs nd)) = True"
    "any_started ((map m_pc (msgs nd))[i := Tx_done]) = True"
    unfolding server_inv_def
    by (simp_all add: any_started_holder [where i = i] any_started_upd_holder [where i = i]
          active_pc_def started_pc_def)
  with Tx_success inv show ?thesis
    by (simp add: count_inv_def map_update)
next
  case (Wait_start i R)
  with srv have "any_started (map m_pc (msgs nd)) = True"
    "any_started ((map m_pc (msgs nd))[i := Wait_yield_timeout]) = True"
    unfolding server_inv_def
    by (simp_all add: any_started_holder [where i = i] any_started_upd_holder [where i = i]
          active_pc_def started_pc_def)
  with Wait_start inv show ?thesis
    by (simp add: count_inv_def map_update)
next
  case (Wait_end i)
  with srv have "any_started (map m_pc (msgs nd)) = True"
    "any_started ((map m_pc (msgs nd))[i := Wait_done]) = True"
    unfolding server_inv_def
    by (simp_all add: any_started_holder [where i = i] any_started_upd_holder [where i = i]
          active_pc_def started_pc_def)
  with Wait_end inv show ?thesis
    by (simp add: count_inv_def map_update)
next
  case (Tx_retry i)
  with srv have "any_started (map m_pc (msgs nd)) = True"
    "any_started ((map m_pc (msgs nd))[i := Tx_yield_timeout]) = True"
    unfolding server_inv_def
    by (simp_all add: any_started_holder [where i = i] any_started_upd_holder [where i = i]
          active_pc_def started_pc_def)
  with Tx_retry inv show ?thesis
    by (simp add: count_inv_def map_update)
next
  case (Wfs_finish i)
  with srv have "any_started (map m_pc (msgs nd)) = True"
    "any_started ((map m_pc (msgs nd))[i := Wfs_done]) = False"
    unfolding server_inv_def
    by (simp_all add: any_started_holder [where i = i] any_started_upd_holder [where i = i]
          active_pc_def started_pc_def)
  with Wfs_finish inv show ?thesis
    by (simp add: count_inv_def map_update)
next
  case (Wfs_finish_reset i)
  with srv have "any_started ((map m_pc (msgs nd))[i := Wfs_done]) = False"
    unfolding server_inv_def
    by (simp_all add: any_started_upd_holder [where i = i] active_pc_def started_pc_def)
  with Wfs_finish_reset show ?thesis
    by (simp add: count_inv_def map_update)
next
  case Release
  with inv show ?thesis by (simp add: count_inv_def)
qed


lemma stepE [consumes 1, case_names Advance At]:
  assumes "step a s = Some (Inr s')"
  obtains
    (Advance) t where "a = Advance t" "now s < t" "t \<le> TERMINATE_TIME"
      "\<forall>nd \<in> set (nodes s). node_idle_until t nd" "s' = s\<lparr>now := t\<rparr>"
  | (At) k b c nd where "a = At k b" "k < length (nodes s)" "now s < TERMINATE_TIME"
      "node_step b (now s) (chan s) (nodes s ! k) = Some (Inr (c, nd))"
      "s' = s\<lparr>chan := c, nodes := (nodes s)[k := nd]\<rparr>"
      "registers b \<longrightarrow> no_frame_due s"
proof (cases a)
  case (Advance t)
  with assms that(1) show thesis by (simp split: if_splits)
next
  case (At k b)
  with assms have g: "k < length (nodes s)" "now s < TERMINATE_TIME"
      "registers b \<longrightarrow> no_frame_due s"
    by (simp_all split: if_splits)
  with assms At obtain r where r: "node_step b (now s) (chan s) (nodes s ! k) = Some r"
    by (cases "node_step b (now s) (chan s) (nodes s ! k)") simp_all
  with assms At g obtain c nd where "r = Inr (c, nd)"
    by (cases r) auto
  with assms At g r that(2) show thesis by simp
qed

lemma exec_invariant:
  assumes "exec acts s = Some (Inr s')" and "P s"
    and "\<And>a s s'. P s \<Longrightarrow> step a s = Some (Inr s') \<Longrightarrow> P s'"
  shows "P s'"
  using assms(1,2)
proof (induction acts arbitrary: s)
  case Nil
  then show ?case by simp
next
  case (Cons a acts)
  from Cons.prems(1) obtain s1 where s1: "step a s = Some (Inr s1)" "exec acts s1 = Some (Inr s')"
    by (auto split: option.splits sum.splits)
  from assms(3) [OF Cons.prems(2) s1(1)] have "P s1" .
  with Cons.IH s1(2) show ?case by blast
qed

lemma nodes_invariant_step:
  assumes "step a s = Some (Inr s')" and "\<forall>nd \<in> set (nodes s). I nd"
    and "\<And>b t c nd c' nd'. I nd \<Longrightarrow> node_step b t c nd = Some (Inr (c', nd')) \<Longrightarrow> I nd'"
  shows "\<forall>nd \<in> set (nodes s'). I nd"
  using assms(1)
proof (cases rule: stepE)
  case (Advance t)
  with assms(2) show ?thesis by simp
next
  case (At k b c nd)
  from At(2) assms(2) have "I (nodes s ! k)" by simp
  with assms(3) At(4) have "I nd" by blast
  with assms(2) At(5) show ?thesis
    by (auto dest: subsetD [OF set_update_subset_insert])
qed

lemma local_inv_init: "\<forall>nd \<in> set (nodes (sim_init c)). local_inv nd"
  by (simp add: sim_init_def local_inv_def node_init_def server_inv_def srv_ok_def count_inv_def
      any_started_def Station_init_def)

lemma local_inv_reachable:
  assumes "reachable_from c s"
  shows "\<forall>nd \<in> set (nodes s). local_inv nd"
proof -
  from assms obtain acts where acts: "exec acts (sim_init c) = Some (Inr s)"
    by (auto simp: reachable_from_def)
  show ?thesis
  proof (rule exec_invariant [OF acts, where P = "\<lambda>s. \<forall>nd \<in> set (nodes s). local_inv nd"])
    show "\<forall>nd \<in> set (nodes (sim_init c)). local_inv nd" by (rule local_inv_init)
  next
    fix a s s'
    assume inv: "\<forall>nd \<in> set (nodes s). local_inv nd" and st: "step a s = Some (Inr s')"
    show "\<forall>nd \<in> set (nodes s'). local_inv nd"
      by (rule nodes_invariant_step [OF st inv])
         (auto simp: local_inv_def intro: server_inv_step count_inv_step)
  qed
qed

text \<open>
  C5. In every state that a replication reaches, whatever registry it starts from, the
  successes a station has counted do not exceed the initial transmissions it has
  counted. The reset is one of the steps: it sets both counters to zero while no other
  message of the station is being transmitted.
\<close>

theorem nt_le_initial_transmits:
  "reachable_from c s \<Longrightarrow> nd \<in> set (nodes s) \<Longrightarrow>
   nt (station nd) \<le> num_initial_transmits (station nd)"
  using local_inv_reachable [of c s] by (auto simp: local_inv_def count_inv_def)

theorem nt_le_initial_transmits_witness:
  "\<exists>s. exec ex_collision_acts (sim_init empty_channel) = Some (Inr s)
       \<and> nodes s ! 0 \<in> set (nodes s)
       \<and> nt (station (nodes s ! 0)) = 1
       \<and> nt (station (nodes s ! 0)) \<le> num_initial_transmits (station (nodes s ! 0))"
proof -
  have "case exec ex_collision_acts (sim_init empty_channel) of
          Some (Inr s) \<Rightarrow> length (nodes s) = 8 \<and> nt (station (nodes s ! 0)) = 1
        | _ \<Rightarrow> False"
    by code_simp
  then obtain s where s: "exec ex_collision_acts (sim_init empty_channel) = Some (Inr s)"
      "length (nodes s) = 8" "nt (station (nodes s ! 0)) = 1"
    by (auto split: option.splits sum.splits)
  from s(1) have r: "reachable_from empty_channel s"
    by (auto simp: reachable_from_def)
  from s(2) have m: "nodes s ! 0 \<in> set (nodes s)" by simp
  from nt_le_initial_transmits [OF r m] s m show ?thesis by blast
qed

subsection \<open>Invariants that depend on the clock\<close>

lemma nodes_timed_invariant_step:
  assumes "step a s = Some (Inr s')" and "\<forall>nd \<in> set (nodes s). I (now s) nd"
    and node: "\<And>b t c nd c' nd'. I t nd \<Longrightarrow> t < TERMINATE_TIME \<Longrightarrow>
           node_step b t c nd = Some (Inr (c', nd')) \<Longrightarrow> I t nd'"
    and adv: "\<And>t t' nd. I t nd \<Longrightarrow> t < t' \<Longrightarrow> t' \<le> TERMINATE_TIME \<Longrightarrow>
           node_idle_until t' nd \<Longrightarrow> I t' nd"
  shows "\<forall>nd \<in> set (nodes s'). I (now s') nd"
  using assms(1)
proof (cases rule: stepE)
  case (Advance t)
  have "I t nd" if "nd \<in> set (nodes s)" for nd
    using that assms(2) Advance adv [of "now s" nd t] by blast
  with Advance show ?thesis by simp
next
  case (At k b c nd)
  from At(2) assms(2) have "I (now s) (nodes s ! k)" by simp
  from node [OF this At(3,4)] have "I (now s) nd" .
  with assms(2) At(5) show ?thesis
    by (auto dest: subsetD [OF set_update_subset_insert])
qed

lemma timed_invariant_reachable:
  assumes "reachable_from c s"
    and init: "\<forall>nd \<in> set (nodes (sim_init c)). I 0 nd"
    and node: "\<And>b t c nd c' nd'. I t nd \<Longrightarrow> t < TERMINATE_TIME \<Longrightarrow>
           node_step b t c nd = Some (Inr (c', nd')) \<Longrightarrow> I t nd'"
    and adv: "\<And>t t' nd. I t nd \<Longrightarrow> t < t' \<Longrightarrow> t' \<le> TERMINATE_TIME \<Longrightarrow>
           node_idle_until t' nd \<Longrightarrow> I t' nd"
  shows "\<forall>nd \<in> set (nodes s). I (now s) nd"
proof -
  from assms(1) obtain acts where acts: "exec acts (sim_init c) = Some (Inr s)"
    by (auto simp: reachable_from_def)
  show ?thesis
  proof (rule exec_invariant [OF acts, where P = "\<lambda>s. \<forall>nd \<in> set (nodes s). I (now s) nd"])
    show "\<forall>nd \<in> set (nodes (sim_init c)). I (now (sim_init c)) nd"
      using init by (simp add: sim_init_def)
  next
    fix a s s'
    assume inv: "\<forall>nd \<in> set (nodes s). I (now s) nd" and st: "step a s = Some (Inr s')"
    show "\<forall>nd \<in> set (nodes s'). I (now s') nd"
      by (rule nodes_timed_invariant_step [where I = I, OF st inv node adv])
  qed
qed

subsection \<open>The resets of a station\<close>

lemma reset_inv_step:
  assumes "node_step a t c nd = Some (Inr (c', nd'))" and inv: "reset_inv t nd"
  shows "reset_inv t nd'"
  using assms(1)
proof (cases rule: node_stepE)
  case (Wfs_finish_reset i)
  with inv show ?thesis by (auto simp: reset_inv_def)
qed (use inv in \<open>simp_all add: reset_inv_def\<close>)

lemma reset_inv_advance:
  "reset_inv t nd \<Longrightarrow> t < t' \<Longrightarrow> reset_inv t' nd"
  by (auto simp: reset_inv_def)

lemma reset_inv_reachable:
  assumes "reachable_from c s"
  shows "\<forall>nd \<in> set (nodes s). reset_inv (now s) nd"
proof (rule timed_invariant_reachable [where I = reset_inv, OF assms])
  show "\<forall>nd \<in> set (nodes (sim_init c)). reset_inv 0 nd"
    by (simp add: sim_init_def node_init_def reset_inv_def Station_init_def)
qed (auto intro: reset_inv_step reset_inv_advance)

subsection \<open>The history of a message\<close>

lemma history_inv_update:
  assumes "history_inv nd" "msg_history_ok m"
  shows "\<forall>x \<in> set ((msgs nd)[i := m]). msg_history_ok x"
  using assms by (auto simp: history_inv_def dest: subsetD [OF set_update_subset_insert])

lemma history_inv_nth:
  "history_inv nd \<Longrightarrow> i < length (msgs nd) \<Longrightarrow> msg_history_ok (msgs nd ! i)"
  by (simp add: history_inv_def)

lemma generate_frame_time_pos: "generate_frame_time Rs = Some ft \<Longrightarrow> 0 < ft"
  by (induction Rs) (auto split: if_splits)

lemma history_inv_step:
  assumes "node_step a t c nd = Some (Inr (c', nd'))" and inv: "history_inv nd"
  shows "history_inv nd'"
  using assms(1)
proof (cases rule: node_stepE)
  case (Arrive_start R)
  with inv show ?thesis by (simp add: history_inv_def)
next
  case (Arrive_fire R)
  with inv show ?thesis
    by (simp add: history_inv_def msg_history_ok_def msg_init_def before_tx_def)
next
  case (Wfs_start i)
  from history_inv_nth [OF inv Wfs_start(3)] Wfs_start(4)
  have "msg_history_ok ((msgs nd ! i)\<lparr>m_pc := Wfs_yield_req\<rparr>)"
    by (simp add: msg_history_ok_def before_tx_def)
  from history_inv_update [OF inv this] Wfs_start show ?thesis
    by (simp add: history_inv_def)
next
  case (Wfs_granted i x rest)
  from history_inv_nth [OF inv Wfs_granted(3)] Wfs_granted(4)
  have "msg_history_ok ((msgs nd ! i)\<lparr>m_pc := Tx_created, wfs_transmit_time := t\<rparr>)"
    by (simp add: msg_history_ok_def before_tx_def)
  from history_inv_update [OF inv this] Wfs_granted show ?thesis
    by (simp add: history_inv_def)
next
  case (Tx_start i Rs ft)
  from history_inv_nth [OF inv Tx_start(2)] Tx_start(3) generate_frame_time_pos [OF Tx_start(4)]
  have "msg_history_ok ((msgs nd ! i)\<lparr>tx_frame_time := ft,
                   h_frame_draws := Suc (h_frame_draws (msgs nd ! i)),
                   h_initial_counts := Suc (h_initial_counts (msgs nd ! i)),
                   m_pc := Tx_yield_timeout, tx_frame := next_obj c, tx_transmit_time := t,
                   m_wake := t + ft,
                   h_attempts := h_attempts (msgs nd ! i) @ [ft]\<rparr>)"
    by (simp add: msg_history_ok_def before_tx_def)
  from history_inv_update [OF inv this] Tx_start show ?thesis
    by (simp add: history_inv_def)
next
  case (Tx_collided i x)
  from history_inv_nth [OF inv Tx_collided(2)] Tx_collided(3)
  have "msg_history_ok ((msgs nd ! i)\<lparr>m_pc := Wait_created\<rparr>)"
    by (simp add: msg_history_ok_def before_tx_def)
  from history_inv_update [OF inv this] Tx_collided show ?thesis
    by (simp add: history_inv_def)
next
  case (Tx_success i x)
  from history_inv_nth [OF inv Tx_success(2)] Tx_success(3)
  have "msg_history_ok ((msgs nd ! i)\<lparr>m_pc := Tx_done\<rparr>)"
    by (simp add: msg_history_ok_def before_tx_def)
  from history_inv_update [OF inv this] Tx_success show ?thesis
    by (simp add: history_inv_def)
next
  case (Wait_start i R)
  from history_inv_nth [OF inv Wait_start(3)] Wait_start(4)
  have "msg_history_ok ((msgs nd ! i)\<lparr>m_pc := Wait_yield_timeout, m_wake := t + R\<rparr>)"
    by (simp add: msg_history_ok_def before_tx_def)
  from history_inv_update [OF inv this] Wait_start show ?thesis
    by (simp add: history_inv_def)
next
  case (Wait_end i)
  from history_inv_nth [OF inv Wait_end(3)] Wait_end(4)
  have "msg_history_ok ((msgs nd ! i)\<lparr>m_pc := Wait_done\<rparr>)"
    by (simp add: msg_history_ok_def before_tx_def)
  from history_inv_update [OF inv this] Wait_end show ?thesis
    by (simp add: history_inv_def)
next
  case (Tx_retry i)
  from history_inv_nth [OF inv Tx_retry(2)] Tx_retry(3)
  have "msg_history_ok ((msgs nd ! i)\<lparr>m_pc := Tx_yield_timeout, tx_frame := next_obj c,
                   tx_transmit_time := t, m_wake := t + tx_frame_time (msgs nd ! i),
                   h_attempts := h_attempts (msgs nd ! i) @ [tx_frame_time (msgs nd ! i)]\<rparr>)"
    by (simp add: msg_history_ok_def before_tx_def)
  from history_inv_update [OF inv this] Tx_retry show ?thesis
    by (simp add: history_inv_def)
next
  case (Wfs_finish i)
  from history_inv_nth [OF inv Wfs_finish(3)] Wfs_finish(4)
  have "msg_history_ok ((msgs nd ! i)\<lparr>m_pc := Wfs_done\<rparr>)"
    by (simp add: msg_history_ok_def before_tx_def)
  from history_inv_update [OF inv this] Wfs_finish show ?thesis
    by (simp add: history_inv_def)
next
  case (Wfs_finish_reset i)
  from history_inv_nth [OF inv Wfs_finish_reset(3)] Wfs_finish_reset(4)
  have "msg_history_ok ((msgs nd ! i)\<lparr>m_pc := Wfs_done\<rparr>)"
    by (simp add: msg_history_ok_def before_tx_def)
  from history_inv_update [OF inv this] Wfs_finish_reset show ?thesis
    by (simp add: history_inv_def)
next
  case Release
  with inv show ?thesis by (simp add: history_inv_def)
qed

lemma history_inv_reachable:
  assumes "reachable_from c s"
  shows "\<forall>nd \<in> set (nodes s). history_inv nd"
proof -
  from assms obtain acts where acts: "exec acts (sim_init c) = Some (Inr s)"
    by (auto simp: reachable_from_def)
  show ?thesis
  proof (rule exec_invariant [OF acts, where P = "\<lambda>s. \<forall>nd \<in> set (nodes s). history_inv nd"])
    show "\<forall>nd \<in> set (nodes (sim_init c)). history_inv nd"
      by (simp add: sim_init_def node_init_def history_inv_def)
  next
    fix a s s'
    assume inv: "\<forall>nd \<in> set (nodes s). history_inv nd" and st: "step a s = Some (Inr s')"
    show "\<forall>nd \<in> set (nodes s'). history_inv nd"
      by (rule nodes_invariant_step [OF st inv]) (rule history_inv_step)
  qed
qed

subsection \<open>Busy time\<close>

lemma sending_active: "sending_pc p \<Longrightarrow> active_pc p"
  by (auto simp: sending_pc_def active_pc_def)

lemma any_sending_upd_holder:
  assumes "srv_ok us pcs" "i < length pcs" "active_pc (pcs ! i)"
  shows "any_sending (pcs[i := p]) = sending_pc p"
proof -
  from assms have us: "us = [i]" by (rule srv_ok_holder)
  have others: "\<not> sending_pc ((pcs[i := p]) ! j)" if "j < length pcs" "j \<noteq> i" for j
    using srv_ok_others [OF assms(1) us that] that sending_active by auto
  show ?thesis
  proof
    assume "any_sending (pcs[i := p])"
    then obtain j where j: "j < length pcs" "sending_pc ((pcs[i := p]) ! j)"
      by (auto simp: any_sending_def)
    with others have "j = i" by blast
    with j show "sending_pc p" by simp
  next
    assume "sending_pc p"
    with assms(2) have "i < length (pcs[i := p]) \<and> sending_pc ((pcs[i := p]) ! i)" by simp
    then show "any_sending (pcs[i := p])" unfolding any_sending_def by blast
  qed
qed

lemma any_sending_holder:
  assumes "srv_ok us pcs" "i < length pcs" "active_pc (pcs ! i)"
  shows "any_sending pcs = sending_pc (pcs ! i)"
  using any_sending_upd_holder [OF assms, of "pcs ! i"] by simp

lemma any_sending_upd_idle:
  assumes "i < length pcs" "\<not> sending_pc (pcs ! i)" "\<not> sending_pc p"
  shows "any_sending (pcs[i := p]) = any_sending pcs"
proof -
  have "sending_pc ((pcs[i := p]) ! j) = sending_pc (pcs ! j)" if "j < length pcs" for j
    using that assms by (cases "j = i") simp_all
  then show ?thesis by (auto simp: any_sending_def)
qed

lemma any_sending_append:
  assumes "\<not> sending_pc p"
  shows "any_sending (pcs @ [p]) = any_sending pcs"
  using assms by (auto simp: any_sending_def nth_append less_Suc_eq)

lemma sending_ok_idle: "\<not> sending_pc (m_pc m) \<Longrightarrow> sending_ok t s m"
  by (simp add: sending_ok_def sending_pc_def)

lemma sending_ok_same:
  assumes "sending_ok t s m" "busy_time s' = busy_time s"
    "initial_reset_completed s' = initial_reset_completed s"
  shows "sending_ok t s' m"
  using assms by (simp add: sending_ok_def busy_bound_def)

text \<open>The messages other than the one that holds the server are not sending.\<close>

lemma others_idle:
  assumes "server_inv nd" "i < length (msgs nd)" "active_pc (m_pc (msgs nd ! i))"
    and "m \<in> set ((msgs nd)[i := m'])"
  shows "m = m' \<or> \<not> sending_pc (m_pc m)"
proof -
  from assms(4) obtain j where j: "j < length (msgs nd)" "m = (msgs nd)[i := m'] ! j"
    by (auto simp: in_set_conv_nth)
  show ?thesis
  proof (cases "j = i")
    case True
    with j show ?thesis by simp
  next
    case False
    from assms(1-3) have us: "users (server (station nd)) = [i]"
      unfolding server_inv_def by (intro srv_ok_holder [where pcs = "map m_pc (msgs nd)"]) simp_all
    from assms(1) have "srv_ok (users (server (station nd))) (map m_pc (msgs nd))"
      by (simp add: server_inv_def)
    from srv_ok_others [OF this us, of j] j False
    have "\<not> active_pc (m_pc (msgs nd ! j))" by simp
    with j False sending_active show ?thesis by auto
  qed
qed

text \<open>A step of the message that holds the server.\<close>

lemma busy_inv_holder_step:
  assumes srv: "server_inv nd" and i: "i < length (msgs nd)" "active_pc (m_pc (msgs nd ! i))"
    and nonneg: "0 \<le> busy_time s'"
    and ok: "sending_ok t s' m'"
    and bound: "\<not> sending_pc (m_pc m') \<Longrightarrow> busy_bound s' t"
  shows "busy_inv t (nd\<lparr>station := s', msgs := (msgs nd)[i := m']\<rparr>)"
proof -
  have "sending_ok t s' m" if "m \<in> set ((msgs nd)[i := m'])" for m
    using others_idle [OF srv i that] ok sending_ok_idle by blast
  moreover have "any_sending ((map m_pc (msgs nd))[i := m_pc m']) = sending_pc (m_pc m')"
    using srv i unfolding server_inv_def by (intro any_sending_upd_holder) simp_all
  ultimately show ?thesis using nonneg bound
    by (simp add: busy_inv_def map_update)
qed

text \<open>A step of a message that does not hold the server, or of no message.\<close>

lemma busy_inv_idle_step:
  assumes inv: "busy_inv t nd" and i: "i < length (msgs nd)" "\<not> sending_pc (m_pc (msgs nd ! i))"
    and m': "\<not> sending_pc (m_pc m')"
    and same: "busy_time s' = busy_time (station nd)"
      "initial_reset_completed s' = initial_reset_completed (station nd)"
  shows "busy_inv t (nd\<lparr>station := s', msgs := (msgs nd)[i := m']\<rparr>)"
proof -
  have "sending_ok t s' m" if "m \<in> set ((msgs nd)[i := m'])" for m
  proof -
    from that have "m = m' \<or> m \<in> set (msgs nd)"
      by (auto dest: subsetD [OF set_update_subset_insert])
    with inv m' same show ?thesis
      by (auto simp: busy_inv_def intro: sending_ok_idle sending_ok_same)
  qed
  moreover have "any_sending ((map m_pc (msgs nd))[i := m_pc m']) = any_sending (map m_pc (msgs nd))"
    using i m' by (intro any_sending_upd_idle) simp_all
  ultimately show ?thesis using inv same
    by (simp add: busy_inv_def map_update busy_bound_def)
qed

lemma busy_inv_station:
  assumes inv: "busy_inv t nd"
    and same: "busy_time s' = busy_time (station nd)"
      "initial_reset_completed s' = initial_reset_completed (station nd)"
  shows "busy_inv t (nd\<lparr>station := s'\<rparr>)"
  using assms by (auto simp: busy_inv_def busy_bound_def intro: sending_ok_same)

lemma busy_inv_holder_facts:
  assumes "node_inv t nd" "i < length (msgs nd)" "active_pc (m_pc (msgs nd ! i))"
  shows "0 \<le> busy_time (station nd)" "sending_ok t (station nd) (msgs nd ! i)"
    "\<not> sending_pc (m_pc (msgs nd ! i)) \<Longrightarrow> busy_bound (station nd) t"
    "msg_history_ok (msgs nd ! i)"
proof -
  from assms show "0 \<le> busy_time (station nd)" by (simp add: node_inv_def busy_inv_def)
  from assms show "sending_ok t (station nd) (msgs nd ! i)"
    by (simp add: node_inv_def busy_inv_def)
  from assms show "msg_history_ok (msgs nd ! i)"
    by (simp add: node_inv_def history_inv_def)
  assume "\<not> sending_pc (m_pc (msgs nd ! i))"
  moreover from assms have "any_sending (map m_pc (msgs nd)) = sending_pc (m_pc (msgs nd ! i))"
    unfolding node_inv_def server_inv_def
    using any_sending_holder [of "users (server (station nd))" "map m_pc (msgs nd)" i] by simp
  ultimately show "busy_bound (station nd) t"
    using assms(1) by (simp add: node_inv_def busy_inv_def)
qed

lemma busy_inv_step:
  assumes "node_step a t c nd = Some (Inr (c', nd'))" and inv: "node_inv t nd"
    and t: "t < TERMINATE_TIME"
  shows "busy_inv t nd'"
  using assms(1)
proof (cases rule: node_stepE)
  case (Arrive_start R)
  with inv show ?thesis by (simp add: node_inv_def busy_inv_def)
next
  case (Arrive_fire R)
  with inv show ?thesis
    by (auto simp: node_inv_def busy_inv_def any_sending_append msg_init_def sending_pc_def
        intro: sending_ok_idle)
next
  case (Wfs_start i)
  from inv have "busy_inv t nd" by (simp add: node_inv_def)
  from busy_inv_idle_step [OF this Wfs_start(3), where m' = "(msgs nd ! i)\<lparr>m_pc := Wfs_yield_req\<rparr>"
      and s' = "(station nd)\<lparr>arrivals := arrivals (station nd) @ [\<lparr>arr_name = m_name (msgs nd ! i), arr_time = t\<rparr>],
                    last_event := t, n := n (station nd) + 1,
                    server := request (server (station nd)) i\<rparr>"]
    Wfs_start(4,5)
  show ?thesis by (simp add: sending_pc_def)
next
  case (Wfs_granted i x rest)
  from inv have "busy_inv t nd" by (simp add: node_inv_def)
  from busy_inv_idle_step [OF this Wfs_granted(3),
      where m' = "(msgs nd ! i)\<lparr>m_pc := Tx_created, wfs_transmit_time := t\<rparr>"
      and s' = "(station nd)\<lparr>arrivals := rest\<rparr>"]
    Wfs_granted(4,7)
  show ?thesis by (simp add: sending_pc_def)
next
  case (Tx_start i Rs ft)
  from Tx_start(3) have act: "active_pc (m_pc (msgs nd ! i))" by (simp add: active_pc_def)
  from inv have srv: "server_inv nd" by (simp add: node_inv_def)
  note f = busy_inv_holder_facts [OF inv Tx_start(2) act]
  from f(3) Tx_start(3) have b: "busy_bound (station nd) t" by (simp add: sending_pc_def)
  from generate_frame_time_pos [OF Tx_start(4)] have ft: "0 < ft" .
  show ?thesis
    unfolding Tx_start(6)
    by (rule busy_inv_holder_step [OF srv Tx_start(2) act])
       (use f(1) b ft in \<open>simp_all add: sending_ok_def busy_bound_def sending_pc_def\<close>)
next
  case (Tx_collided i x)
  from Tx_collided(3) have act: "active_pc (m_pc (msgs nd ! i))" by (simp add: active_pc_def)
  from inv have srv: "server_inv nd" by (simp add: node_inv_def)
  note f = busy_inv_holder_facts [OF inv Tx_collided(2) act]
  show ?thesis
    unfolding Tx_collided(8)
    by (rule busy_inv_holder_step [OF srv Tx_collided(2) act])
       (use f(1,2) Tx_collided(3) in \<open>auto simp add: sending_ok_def busy_bound_def sending_pc_def\<close>)
next
  case (Tx_success i x)
  from Tx_success(3) have act: "active_pc (m_pc (msgs nd ! i))" by (simp add: active_pc_def)
  from inv have srv: "server_inv nd" by (simp add: node_inv_def)
  note f = busy_inv_holder_facts [OF inv Tx_success(2) act]
  show ?thesis
    unfolding Tx_success(8)
    by (rule busy_inv_holder_step [OF srv Tx_success(2) act])
       (use f(1,2) Tx_success(3) t in \<open>auto simp add: sending_ok_def busy_bound_def sending_pc_def split: if_splits\<close>)
next
  case (Wait_start i R)
  from Wait_start(4) have act: "active_pc (m_pc (msgs nd ! i))" by (simp add: active_pc_def)
  from inv have srv: "server_inv nd" by (simp add: node_inv_def)
  note f = busy_inv_holder_facts [OF inv Wait_start(3) act]
  from f(3) Wait_start(4) have b: "busy_bound (station nd) t" by (simp add: sending_pc_def)
  have eq: "nd' = nd\<lparr>station := station nd,
      msgs := (msgs nd)[i := (msgs nd ! i)\<lparr>m_pc := Wait_yield_timeout, m_wake := t + R\<rparr>]\<rparr>"
    using Wait_start(6) by simp
  show ?thesis
    unfolding eq
    by (rule busy_inv_holder_step [OF srv Wait_start(3) act])
       (use f(1) b in \<open>simp_all add: sending_ok_def sending_pc_def\<close>)
next
  case (Wait_end i)
  from Wait_end(4) have act: "active_pc (m_pc (msgs nd ! i))" by (simp add: active_pc_def)
  from inv have srv: "server_inv nd" by (simp add: node_inv_def)
  note f = busy_inv_holder_facts [OF inv Wait_end(3) act]
  from f(3) Wait_end(4) have b: "busy_bound (station nd) t" by (simp add: sending_pc_def)
  have eq: "nd' = nd\<lparr>station := station nd,
      msgs := (msgs nd)[i := (msgs nd ! i)\<lparr>m_pc := Wait_done\<rparr>]\<rparr>"
    using Wait_end(6) by simp
  show ?thesis
    unfolding eq
    by (rule busy_inv_holder_step [OF srv Wait_end(3) act])
       (use f(1) b in \<open>simp_all add: sending_ok_def sending_pc_def\<close>)
next
  case (Tx_retry i)
  from Tx_retry(3) have act: "active_pc (m_pc (msgs nd ! i))" by (simp add: active_pc_def)
  from inv have srv: "server_inv nd" by (simp add: node_inv_def)
  note f = busy_inv_holder_facts [OF inv Tx_retry(2) act]
  from f(3) Tx_retry(3) have b: "busy_bound (station nd) t" by (simp add: sending_pc_def)
  from f(4) Tx_retry(3) have ft: "0 < tx_frame_time (msgs nd ! i)"
    by (simp add: msg_history_ok_def before_tx_def)
  have eq: "nd' = nd\<lparr>station := station nd,
      msgs := (msgs nd)[i := (msgs nd ! i)\<lparr>m_pc := Tx_yield_timeout, tx_frame := next_obj c,
                   tx_transmit_time := t, m_wake := t + tx_frame_time (msgs nd ! i),
                   h_attempts := h_attempts (msgs nd ! i) @ [tx_frame_time (msgs nd ! i)]\<rparr>]\<rparr>"
    using Tx_retry(5) by simp
  show ?thesis
    unfolding eq
    by (rule busy_inv_holder_step [OF srv Tx_retry(2) act])
       (use f(1) b ft in \<open>simp_all add: sending_ok_def sending_pc_def\<close>)
next
  case (Wfs_finish i)
  from Wfs_finish(4) have act: "active_pc (m_pc (msgs nd ! i))" by (simp add: active_pc_def)
  from inv have srv: "server_inv nd" by (simp add: node_inv_def)
  note f = busy_inv_holder_facts [OF inv Wfs_finish(3) act]
  show ?thesis
    unfolding Wfs_finish(6)
    by (rule busy_inv_holder_step [OF srv Wfs_finish(3) act])
       (use f(1,2) Wfs_finish(4,5) in \<open>auto simp add: sending_ok_def busy_bound_def sending_pc_def split: if_splits\<close>)
next
  case (Wfs_finish_reset i)
  from Wfs_finish_reset(4) have act: "active_pc (m_pc (msgs nd ! i))" by (simp add: active_pc_def)
  from inv have srv: "server_inv nd" by (simp add: node_inv_def)
  have eq: "nd' = (nd\<lparr>h_resets := h_resets nd @ [t]\<rparr>)\<lparr>station := (station nd)\<lparr>nt := 0, st := 0, num_retries := 0,
                    num_initial_transmits := 0, busy_time := 0,
                    last_event := t, n := n (station nd) - 1,
                    initial_reset_completed := True,
                    server := release (server (station nd)) i\<rparr>,
               msgs := (msgs (nd\<lparr>h_resets := h_resets nd @ [t]\<rparr>))[i := (msgs nd ! i)\<lparr>m_pc := Wfs_done\<rparr>]\<rparr>"
    using Wfs_finish_reset(7) by simp
  have srv': "server_inv (nd\<lparr>h_resets := h_resets nd @ [t]\<rparr>)"
    using srv by (simp add: server_inv_def)
  show ?thesis
    unfolding eq
    by (rule busy_inv_holder_step [OF srv'])
       (use Wfs_finish_reset(3,4,6) act in \<open>simp_all add: sending_ok_def busy_bound_def sending_pc_def\<close>)
next
  case Release
  from inv have "busy_inv t nd" by (simp add: node_inv_def)
  from busy_inv_station [OF this, where s' = "(station nd)\<lparr>server := release_processed (server (station nd))\<rparr>"]
    Release(4)
  show ?thesis by simp
qed



lemma busy_inv_advance:
  assumes inv: "busy_inv t nd" and lt: "t < t'" and idle: "node_idle_until t' nd"
  shows "busy_inv t' nd"
proof -
  have "sending_ok t' (station nd) m" if m: "m \<in> set (msgs nd)" for m
  proof -
    from m obtain j where j: "j < length (msgs nd)" "m = msgs nd ! j"
      by (auto simp: in_set_conv_nth)
    with idle have i: "msg_idle_until t' (users (server (station nd))) j m"
      by (simp add: node_idle_until_def)
    from inv m have ok: "sending_ok t (station nd) m" by (simp add: busy_inv_def)
    show ?thesis
    proof (cases "m_pc m")
      case Tx_yield_timeout
      with i ok lt show ?thesis by (simp add: msg_idle_until_def sending_ok_def)
    next
      case Tx_done
      with i show ?thesis by (simp add: msg_idle_until_def)
    qed (simp_all add: sending_ok_def)
  qed
  moreover have "busy_bound (station nd) t \<Longrightarrow> busy_bound (station nd) t'"
    using lt by (auto simp: busy_bound_def)
  ultimately show ?thesis using inv by (simp add: busy_inv_def)
qed

lemma node_inv_step:
  assumes "node_inv t nd" "t < TERMINATE_TIME" "node_step a t c nd = Some (Inr (c', nd'))"
  shows "node_inv t nd'"
  using assms server_inv_step [OF assms(3)] history_inv_step [OF assms(3)]
    busy_inv_step [OF assms(3,1,2)]
  by (simp add: node_inv_def)

lemma node_inv_advance:
  assumes "node_inv t nd" "t < t'" "t' \<le> TERMINATE_TIME" "node_idle_until t' nd"
  shows "node_inv t' nd"
  using assms busy_inv_advance [of t nd t'] by (simp add: node_inv_def)

lemma node_inv_reachable:
  assumes "reachable_from c s"
  shows "\<forall>nd \<in> set (nodes s). node_inv (now s) nd"
proof (rule timed_invariant_reachable [where I = node_inv, OF assms])
  show "\<forall>nd \<in> set (nodes (sim_init c)). node_inv 0 nd"
    by (simp add: sim_init_def node_init_def node_inv_def server_inv_def srv_ok_def
        history_inv_def busy_inv_def any_sending_def busy_bound_def Station_init_def
        TRANSIENT_TIME_def)
qed (auto intro: node_inv_step node_inv_advance)

text \<open>When the run has ended, the busy time of a station is at most the steady-state
  time.\<close>

lemma busy_time_final:
  assumes "busy_inv TERMINATE_TIME nd"
  shows "0 \<le> busy_time (station nd) \<and> busy_time (station nd) \<le> STEADY_STATE_TIME"
proof (cases "any_sending (map m_pc (msgs nd))")
  case True
  then obtain j where j: "j < length (msgs nd)" "sending_pc (m_pc (msgs nd ! j))"
    by (auto simp: any_sending_def)
  with assms have ok: "sending_ok TERMINATE_TIME (station nd) (msgs nd ! j)"
    by (simp add: busy_inv_def)
  from j(2) ok have "m_pc (msgs nd ! j) = Tx_yield_timeout"
    by (auto simp: sending_pc_def sending_ok_def)
  with ok assms show ?thesis
    by (auto simp: sending_ok_def busy_bound_def busy_inv_def STEADY_STATE_TIME_def
        TERMINATE_TIME_def TRANSIENT_TIME_def split: if_splits)
next
  case False
  with assms show ?thesis
    by (auto simp: busy_bound_def busy_inv_def STEADY_STATE_TIME_def
        TERMINATE_TIME_def TRANSIENT_TIME_def split: if_splits)
qed

lemma env_run_final:
  assumes "env_run acts (sim_init c) = Some (Inr s)"
  shows "reachable_from c s" "now s = TERMINATE_TIME"
  using assms
  by (auto simp: env_run_def reachable_from_def split: option.splits sum.splits if_splits)

lemma generate_report_busy:
  assumes "generate_report t x = Inr y"
  shows "busy_time y = busy_time x" "t - TRANSIENT_TIME \<noteq> 0"
    "U y = real_of_int (busy_time x) / real_of_int (t - TRANSIENT_TIME)"
  using assms
  by (auto simp: generate_report_def float_div_def Let_def split: if_splits)

lemma generate_report_final:
  "\<exists>y. generate_report TERMINATE_TIME x = Inr y"
  by (simp add: generate_report_def float_div_def Let_def TERMINATE_TIME_def TRANSIENT_TIME_def)

lemma generate_reports_all2:
  "generate_reports t xs = Inr ys \<Longrightarrow> list_all2 (\<lambda>x y. generate_report t x = Inr y) xs ys"
proof (induction xs arbitrary: ys)
  case Nil
  then show ?case by simp
next
  case (Cons x xs)
  then show ?case by (auto split: sum.splits)
qed

lemma totals_busy_nonneg:
  assumes "\<forall>x \<in> set xs. 0 \<le> busy_time x" "0 \<le> e"
  shows "0 \<le> snd (snd (snd (snd (totals xs (a, b, c, d, e)))))"
  using assms by (induction xs arbitrary: a b c d e) auto

lemma unit_fraction:
  fixes b :: int
  assumes "0 \<le> b" "b \<le> STEADY_STATE_TIME"
  shows "0 \<le> real_of_int b / real_of_int (TERMINATE_TIME - TRANSIENT_TIME)"
    "real_of_int b / real_of_int (TERMINATE_TIME - TRANSIENT_TIME) \<le> 1"
  using assms
  by (simp_all add: STEADY_STATE_TIME_def TERMINATE_TIME_def TRANSIENT_TIME_def)

text \<open>
  The claim C6 puts the system-wide utilization in \<open>[0, 1]\<close> as well. In the
  replication \<open>ex_busy_acts\<close> station 0 is busy for 23 time units before the cutoff and
  is never reset, station 1 is busy for 9973 after its reset, and the system-wide
  utilization is \<open>9996 / 9975\<close>.
\<close>

theorem system_utilization_above_one:
  "system_utilization ex_busy_acts empty_channel = Some (9996 / 9975)"
  by code_simp

subsection \<open>The registry from one replication to the next\<close>

text \<open>
  C4. The registry is not made anew for a replication. The frame that station 0 has
  on the air when the first replication stops at \<open>TERMINATE_TIME\<close> is in the registry
  with which the second replication starts; and in the second replication the only
  frame sent, by station 1 over \<open>[9991, 9993)\<close>, collides with it and is retried.
\<close>

theorem registry_survives_replication:
  "next_start_registry ex_late_acts empty_channel =
     Some [((''Station 0'', ''Frame 0''),
            \<lparr>start = 9990, end' = 10005, frame_time = 15, retry = False\<rparr>)]
   \<and> mean_retries_of [ex_late_acts, ex_ghost_acts] = Some [0, 1]"
  by code_simp

text \<open>
  The claim C2 has every registered frame that overlaps no other registered frame
  never flagged. In a second replication the frame left by the first, over
  \<open>[9990, 10005)\<close>, is in the registry with the frames over \<open>[10, 20)\<close> and \<open>[12, 14)\<close>;
  the check of the latter flags all three.
\<close>

theorem leftover_frame_flagged:
  "second_replication_step ex_late_acts ex_pair_acts (At 2 (Tx_frame_end 0)) =
     Some ([((''Station 0'', ''Frame 0''), \<lparr>start = 9990, end' = 10005, frame_time = 15, retry = False\<rparr>),
            ((''Station 1'', ''Frame 0''), \<lparr>start = 10, end' = 20, frame_time = 10, retry = False\<rparr>),
            ((''Station 2'', ''Frame 0''), \<lparr>start = 12, end' = 14, frame_time = 2, retry = False\<rparr>)],
           [((''Station 0'', ''Frame 0''), \<lparr>start = 9990, end' = 10005, frame_time = 15, retry = True\<rparr>),
            ((''Station 1'', ''Frame 0''), \<lparr>start = 10, end' = 20, frame_time = 10, retry = True\<rparr>)])"
  by code_simp

subsection \<open>The registry as a dictionary\<close>

lemma dict_get_set_same: "dict_get (dict_set kvs k v) k = Some v"
  by (induction kvs) auto

lemma dict_get_set_other: "k' \<noteq> k \<Longrightarrow> dict_get (dict_set kvs k v) k' = dict_get kvs k'"
  by (induction kvs) auto

lemma dict_get_del_other: "k' \<noteq> k \<Longrightarrow> dict_get (dict_del kvs k) k' = dict_get kvs k'"
  by (induction kvs) auto

lemma dict_get_in_set: "dict_get kvs k = Some v \<Longrightarrow> (k, v) \<in> set kvs"
  by (induction kvs) (auto split: if_splits)

subsection \<open>What a step of a station does to the frames on the air\<close>

lemma node_step_name:
  assumes "node_step b t c nd = Some (Inr (c', nd'))"
  shows "name (station nd') = name (station nd)"
  using assms by (cases rule: node_stepE) simp_all

lemma node_step_length:
  assumes "node_step b t c nd = Some (Inr (c', nd'))"
  shows "length (msgs nd) \<le> length (msgs nd')"
  using assms by (cases rule: node_stepE) simp_all

text \<open>A frame on the air stays as it is, unless the step is its own timeout.\<close>

lemma node_step_keeps:
  assumes "node_step b t c nd = Some (Inr (c', nd'))"
    and j: "j < length (msgs nd)" "m_pc (msgs nd ! j) = Tx_yield_timeout"
    and b: "b \<noteq> Tx_frame_end j"
  shows "msgs nd' ! j = msgs nd ! j"
  using assms(1)
proof (cases rule: node_stepE)
  case (Arrive_fire R)
  with j show ?thesis by (simp add: nth_append)
qed (use j b in \<open>auto simp: nth_list_update\<close>)

lemma node_step_chan_same:
  assumes "node_step b t c nd = Some (Inr (c', nd'))" "\<not> registers b" "\<forall>j. b \<noteq> Tx_frame_end j"
  shows "c' = c"
  using assms by (cases rule: node_stepE) simp_all

lemma node_step_check:
  assumes "node_step (Tx_frame_end j) t c nd = Some (Inr (c', nd'))"
  shows "j < length (msgs nd)" "m_pc (msgs nd ! j) = Tx_yield_timeout" "t = m_wake (msgs nd ! j)"
    "c' = (check_collision c (tx_frame (msgs nd ! j)) (name (station nd), m_name (msgs nd ! j)))
            \<lparr>frames_in_transmit := dict_del (frames_in_transmit c) (name (station nd), m_name (msgs nd ! j))\<rparr>"
    "m_pc (msgs nd' ! j) \<noteq> Tx_yield_timeout"
    "retry (objs c' (tx_frame (msgs nd ! j))) \<longleftrightarrow> m_pc (msgs nd' ! j) = Wait_created"
  using assms by (cases rule: node_stepE; simp)+

lemma node_step_registers:
  assumes "node_step b t c nd = Some (Inr (c', nd'))" "registers b"
  obtains j ft where "j < length (msgs nd)" "0 < ft \<or> (m_pc (msgs nd ! j) = Wait_done \<and> ft = tx_frame_time (msgs nd ! j))"
    "m_pc (msgs nd ! j) = Tx_created \<or> m_pc (msgs nd ! j) = Wait_done"
    "c' = c\<lparr>objs := (objs c)(next_obj c := create_frame t ft),
          next_obj := Suc (next_obj c),
          frames_in_transmit := dict_set (frames_in_transmit c) (name (station nd), m_name (msgs nd ! j)) (next_obj c)\<rparr>"
    "m_pc (msgs nd' ! j) = Tx_yield_timeout" "tx_frame (msgs nd' ! j) = next_obj c"
    "tx_transmit_time (msgs nd' ! j) = t" "m_wake (msgs nd' ! j) = t + ft"
    "m_name (msgs nd' ! j) = m_name (msgs nd ! j)"
    "\<forall>j'. j' \<noteq> j \<longrightarrow> msgs nd' ! j' = msgs nd ! j'" "length (msgs nd') = length (msgs nd)"
  using assms(1)
proof (cases rule: node_stepE)
  case (Tx_start i Rs ft)
  from generate_frame_time_pos [OF Tx_start(4)] have "0 < ft" .
  with Tx_start that [of i ft] show ?thesis by simp
next
  case (Tx_retry i)
  with that [of i "tx_frame_time (msgs nd ! i)"] show ?thesis by simp
qed (use assms(2) in simp_all)

text \<open>A frame on the air after a step was on the air before, unless the step
  registers it.\<close>

lemma node_step_flight_before:
  assumes "node_step b t c nd = Some (Inr (c', nd'))" "\<not> registers b"
    and j: "j < length (msgs nd')" "m_pc (msgs nd' ! j) = Tx_yield_timeout"
  shows "j < length (msgs nd) \<and> m_pc (msgs nd ! j) = Tx_yield_timeout
         \<and> msgs nd' ! j = msgs nd ! j \<and> b \<noteq> Tx_frame_end j"
  using assms(1)
proof (cases rule: node_stepE)
  case (Arrive_fire R)
  with j show ?thesis
    by (auto simp: nth_append msg_init_def less_Suc_eq split: if_splits)
next
  case (Tx_start i Rs ft)
  with assms(2) show ?thesis by simp
next
  case (Tx_retry i)
  with assms(2) show ?thesis by simp
qed (use j in \<open>auto simp: nth_list_update split: if_splits\<close>)

lemma check_collision_objs:
  "frames_in_transmit (check_collision c f fid) = frames_in_transmit c"
  "next_obj (check_collision c f fid) = next_obj c"
  "start (objs (check_collision c f fid) a) = start (objs c a)"
  "end' (objs (check_collision c f fid) a) = end' (objs c a)"
  "retry (objs c a) \<Longrightarrow> retry (objs (check_collision c f fid) a)"
  by (simp_all add: check_collision_def set_all_retry_fields set_all_retry_mono)

lemma step_nodes_length:
  assumes "step a s = Some (Inr s')"
  shows "length (nodes s') = length (nodes s)"
  using assms by (cases rule: stepE) simp_all

lemma step_names:
  assumes "step a s = Some (Inr s')"
  shows "map (\<lambda>nd. name (station nd)) (nodes s') = map (\<lambda>nd. name (station nd)) (nodes s)"
  using assms
proof (cases rule: stepE)
  case (Advance t)
  then show ?thesis by simp
next
  case (At k b c nd)
  from node_step_name [OF At(4)] At(2,5) show ?thesis
    by (simp add: map_update list_update_same_conv)
qed

lemma step_name_nth:
  assumes "step a s = Some (Inr s')" "k < length (nodes s)"
  shows "name (station (nodes s' ! k)) = name (station (nodes s ! k))"
proof -
  from step_names [OF assms(1)] assms(2) step_nodes_length [OF assms(1)]
  have "map (\<lambda>nd. name (station nd)) (nodes s') ! k = map (\<lambda>nd. name (station nd)) (nodes s) ! k"
    by simp
  with assms(2) step_nodes_length [OF assms(1)] show ?thesis by simp
qed

text \<open>A frame on the air stays so, with the same message record, through every step
  but its own timeout.\<close>

lemma flight_keeps:
  assumes "step a s = Some (Inr s')" "flight s k i" "a \<noteq> At k (Tx_frame_end i)"
  shows "flight s' k i" "msg_at s' k i = msg_at s k i" "frame_id_of s' k i = frame_id_of s k i"
proof -
  have "flight s' k i \<and> msg_at s' k i = msg_at s k i"
    using assms(1)
  proof (cases rule: stepE)
    case (Advance t)
    with assms(2) show ?thesis by (simp add: flight_def msg_at_def)
  next
    case (At k0 b c nd)
    show ?thesis
    proof (cases "k = k0")
      case False
      with At assms(2) show ?thesis by (simp add: flight_def msg_at_def)
    next
      case True
      with assms(2) have j: "i < length (msgs (nodes s ! k0))"
          "m_pc (msgs (nodes s ! k0) ! i) = Tx_yield_timeout"
        by (simp_all add: flight_def msg_at_def)
      from assms(3) At(1) True have "b \<noteq> Tx_frame_end i" by simp
      from node_step_keeps [OF At(4) j this] node_step_length [OF At(4)] j At(2,5) True
      show ?thesis by (simp add: flight_def msg_at_def)
    qed
  qed
  then show "flight s' k i" "msg_at s' k i = msg_at s k i" by simp_all
  with assms(2) step_name_nth [OF assms(1), of k]
  show "frame_id_of s' k i = frame_id_of s k i"
    by (simp add: frame_id_of_def flight_def)
qed

text \<open>A frame on the air after a step that does not register a frame was on the air
  before it.\<close>

lemma flight_before:
  assumes "step a s = Some (Inr s')" "flight s' k i" "\<forall>b. a = At k b \<longrightarrow> \<not> registers b"
  shows "flight s k i \<and> a \<noteq> At k (Tx_frame_end i)"
  using assms(1)
proof (cases rule: stepE)
  case (Advance t)
  with assms(2) show ?thesis by (simp add: flight_def msg_at_def)
next
  case (At k0 b c nd)
  show ?thesis
  proof (cases "k = k0")
    case False
    with At assms(2) show ?thesis by (simp add: flight_def msg_at_def)
  next
    case True
    with assms(3) At(1) have nr: "\<not> registers b" by simp
    from assms(2) True At(2,5) have j: "i < length (msgs nd)" "m_pc (msgs nd ! i) = Tx_yield_timeout"
      by (simp_all add: flight_def msg_at_def)
    from node_step_flight_before [OF At(4) nr j] At(1,2) True
    show ?thesis by (simp add: flight_def msg_at_def)
  qed
qed

lemma names_distinct:
  assumes "names_inv s" "k < length (nodes s)" "k' < length (nodes s)" "k \<noteq> k'"
  shows "name (station (nodes s ! k)) \<noteq> name (station (nodes s ! k'))"
  using assms by (auto simp: names_inv_def distinct_conv_nth)

text \<open>Two frames of one station are not on the air together.\<close>

lemma one_active:
  assumes "server_inv nd" "i < length (msgs nd)" "j < length (msgs nd)"
    "active_pc (m_pc (msgs nd ! i))" "active_pc (m_pc (msgs nd ! j))"
  shows "i = j"
proof -
  from assms have "users (server (station nd)) = [i]" "users (server (station nd)) = [j]"
    unfolding server_inv_def
    by (auto dest: srv_ok_holder [where pcs = "map m_pc (msgs nd)"])
  then show ?thesis by simp
qed

text \<open>Distinct frames on the air have distinct ids.\<close>

lemma flight_ids_distinct:
  assumes "names_inv s" "\<forall>nd \<in> set (nodes s). server_inv nd"
    "flight s k i" "flight s k' i'" "(k, i) \<noteq> (k', i')"
  shows "frame_id_of s k i \<noteq> frame_id_of s k' i'" "k \<noteq> k'"
proof -
  show "k \<noteq> k'"
  proof
    assume "k = k'"
    with assms(2,3,4) have "i = i'"
      by (intro one_active [of "nodes s ! k"]) (auto simp: flight_def msg_at_def active_pc_def)
    with \<open>k = k'\<close> assms(5) show False by simp
  qed
  with assms(1,3,4) show "frame_id_of s k i \<noteq> frame_id_of s k' i'"
    by (auto simp: frame_id_of_def flight_def dest: names_distinct)
qed

lemma step_AtE:
  assumes "step (At k b) s = Some (Inr s')"
  obtains c nd where "k < length (nodes s)" "now s < TERMINATE_TIME"
    "node_step b (now s) (chan s) (nodes s ! k) = Some (Inr (c, nd))"
    "s' = s\<lparr>chan := c, nodes := (nodes s)[k := nd]\<rparr>"
    "registers b \<longrightarrow> no_frame_due s"
  using assms by (cases rule: stepE) simp_all

text \<open>The step that registers a frame, seen from the whole simulation.\<close>

lemma step_registers:
  assumes "step (At k0 b) s = Some (Inr s')" "registers b"
    and inv: "\<forall>nd \<in> set (nodes s). node_inv (now s) nd"
  obtains j ft where "k0 < length (nodes s)" "j < length (msgs (nodes s ! k0))" "0 < ft"
    "chan s' = (chan s)\<lparr>objs := (objs (chan s))(next_obj (chan s) := create_frame (now s) ft),
          next_obj := Suc (next_obj (chan s)),
          frames_in_transmit := dict_set (frames_in_transmit (chan s)) (frame_id_of s k0 j) (next_obj (chan s))\<rparr>"
    "flight s' k0 j" "\<not> flight s k0 j" "frame_id_of s' k0 j = frame_id_of s k0 j"
    "tx_frame (msg_at s' k0 j) = next_obj (chan s)"
    "tx_transmit_time (msg_at s' k0 j) = now s" "m_wake (msg_at s' k0 j) = now s + ft"
    "\<forall>k i. flight s' k i \<and> (k, i) \<noteq> (k0, j) \<longrightarrow> flight s k i \<and> msg_at s' k i = msg_at s k i
        \<and> frame_id_of s' k i = frame_id_of s k i \<and> k \<noteq> k0"
    "no_frame_due s"
proof -
  from assms(1) obtain c nd where At': "True" "k0 < length (nodes s)" "now s < TERMINATE_TIME"
    "node_step b (now s) (chan s) (nodes s ! k0) = Some (Inr (c, nd))"
    "s' = s\<lparr>chan := c, nodes := (nodes s)[k0 := nd]\<rparr>"
    "registers b \<longrightarrow> no_frame_due s"
    by (elim step_AtE) simp
  from At'(2) inv have ninv: "node_inv (now s) (nodes s ! k0)" by simp
  from node_step_registers [OF At'(4) assms(2)]
  obtain j ft where r: "j < length (msgs (nodes s ! k0))"
    "0 < ft \<or> (m_pc (msgs (nodes s ! k0) ! j) = Wait_done \<and> ft = tx_frame_time (msgs (nodes s ! k0) ! j))"
    "m_pc (msgs (nodes s ! k0) ! j) = Tx_created \<or> m_pc (msgs (nodes s ! k0) ! j) = Wait_done"
    "c = (chan s)\<lparr>objs := (objs (chan s))(next_obj (chan s) := create_frame (now s) ft),
          next_obj := Suc (next_obj (chan s)),
          frames_in_transmit := dict_set (frames_in_transmit (chan s))
             (name (station (nodes s ! k0)), m_name (msgs (nodes s ! k0) ! j)) (next_obj (chan s))\<rparr>"
    "m_pc (msgs nd ! j) = Tx_yield_timeout" "tx_frame (msgs nd ! j) = next_obj (chan s)"
    "tx_transmit_time (msgs nd ! j) = now s" "m_wake (msgs nd ! j) = now s + ft"
    "m_name (msgs nd ! j) = m_name (msgs (nodes s ! k0) ! j)"
    "\<forall>j'. j' \<noteq> j \<longrightarrow> msgs nd ! j' = msgs (nodes s ! k0) ! j'"
    "length (msgs nd) = length (msgs (nodes s ! k0))"
    by blast
  from ninv r(1) have "msg_history_ok (msgs (nodes s ! k0) ! j)"
    by (simp add: node_inv_def history_inv_def)
  with r(2) have ft: "0 < ft" by (auto simp: msg_history_ok_def before_tx_def)
  from ninv have srv: "server_inv (nodes s ! k0)" by (simp add: node_inv_def)
  have others: "flight s k i \<and> msg_at s' k i = msg_at s k i
        \<and> frame_id_of s' k i = frame_id_of s k i \<and> k \<noteq> k0"
    if f: "flight s' k i" and ne: "(k, i) \<noteq> (k0, j)" for k i
  proof (cases "k = k0")
    case False
    with f At'(2,5) show ?thesis
      by (simp add: flight_def msg_at_def frame_id_of_def)
  next
    case True
    with ne have ij: "i \<noteq> j" by simp
    with f True At'(2,5) r(10,11) have "i < length (msgs (nodes s ! k0))"
        "m_pc (msgs (nodes s ! k0) ! i) = Tx_yield_timeout"
      by (simp_all add: flight_def msg_at_def)
    with one_active [OF srv this(1) r(1)] r(3) ij show ?thesis
      by (auto simp: active_pc_def)
  qed
  show ?thesis
  proof (rule that [of j ft])
    show "k0 < length (nodes s)" by (rule At'(2))
    show "j < length (msgs (nodes s ! k0))" by (rule r(1))
    show "0 < ft" by (rule ft)
    show "chan s' = (chan s)\<lparr>objs := (objs (chan s))(next_obj (chan s) := create_frame (now s) ft),
          next_obj := Suc (next_obj (chan s)),
          frames_in_transmit := dict_set (frames_in_transmit (chan s)) (frame_id_of s k0 j) (next_obj (chan s))\<rparr>"
      using At'(5) r(4) by (simp add: frame_id_of_def msg_at_def)
    show "flight s' k0 j" using At'(2,5) r(1,5,11) by (simp add: flight_def msg_at_def)
    show "\<not> flight s k0 j" using r(3) by (auto simp: flight_def msg_at_def)
    show "frame_id_of s' k0 j = frame_id_of s k0 j"
      using At'(2,5) r(9) node_step_name [OF At'(4)] by (simp add: frame_id_of_def msg_at_def)
    show "tx_frame (msg_at s' k0 j) = next_obj (chan s)"
      using At'(2,5) r(6) by (simp add: msg_at_def)
    show "tx_transmit_time (msg_at s' k0 j) = now s"
      using At'(2,5) r(7) by (simp add: msg_at_def)
    show "m_wake (msg_at s' k0 j) = now s + ft"
      using At'(2,5) r(8) by (simp add: msg_at_def)
    show "\<forall>k i. flight s' k i \<and> (k, i) \<noteq> (k0, j) \<longrightarrow> flight s k i \<and> msg_at s' k i = msg_at s k i
        \<and> frame_id_of s' k i = frame_id_of s k i \<and> k \<noteq> k0"
      using others by blast
    show "no_frame_due s" using At'(6) assms(2) by simp
  qed
qed

text \<open>The step that is the timeout of a frame, seen from the whole simulation.\<close>

lemma step_check:
  assumes "step (At k0 (Tx_frame_end j)) s = Some (Inr s')"
  shows "flight s k0 j" "now s = m_wake (msg_at s k0 j)"
    "chan s' = (check_collision (chan s) (tx_frame (msg_at s k0 j)) (frame_id_of s k0 j))
            \<lparr>frames_in_transmit := dict_del (frames_in_transmit (chan s)) (frame_id_of s k0 j)\<rparr>"
    "\<not> flight s' k0 j"
    "retry (objs (chan s') (tx_frame (msg_at s k0 j))) \<longleftrightarrow> m_pc (msg_at s' k0 j) = Wait_created"
proof -
  from assms obtain c nd where At': "True" "k0 < length (nodes s)" "now s < TERMINATE_TIME"
    "node_step (Tx_frame_end j) (now s) (chan s) (nodes s ! k0) = Some (Inr (c, nd))"
    "s' = s\<lparr>chan := c, nodes := (nodes s)[k0 := nd]\<rparr>"
    by (elim step_AtE) simp
  note ch = node_step_check [OF At'(4)]
  show "flight s k0 j" using At'(2) ch(1,2) by (simp add: flight_def msg_at_def)
  show "now s = m_wake (msg_at s k0 j)" using ch(3) by (simp add: msg_at_def)
  show "chan s' = (check_collision (chan s) (tx_frame (msg_at s k0 j)) (frame_id_of s k0 j))
            \<lparr>frames_in_transmit := dict_del (frames_in_transmit (chan s)) (frame_id_of s k0 j)\<rparr>"
    using At'(5) ch(4) by (simp add: msg_at_def frame_id_of_def)
  show "\<not> flight s' k0 j" using At'(2,5) ch(5) by (simp add: flight_def msg_at_def)
  show "retry (objs (chan s') (tx_frame (msg_at s k0 j))) \<longleftrightarrow> m_pc (msg_at s' k0 j) = Wait_created"
    using At'(2,5) ch(6) by (simp add: msg_at_def)
qed

text \<open>Any other step leaves the registry and the objects as they are.\<close>

lemma step_chan_same:
  assumes "step a s = Some (Inr s')" "\<forall>k b. a = At k b \<longrightarrow> \<not> registers b"
    "\<forall>k j. a \<noteq> At k (Tx_frame_end j)"
  shows "chan s' = chan s"
  using assms(1)
proof (cases rule: stepE)
  case (Advance t)
  then show ?thesis by simp
next
  case (At k b c nd)
  with assms(2,3) node_step_chan_same [OF At(4)] show ?thesis by simp
qed

subsection \<open>The invariants of the whole simulation are kept\<close>

lemma action_cases [case_names Reg Check Other]:
  obtains (Reg) k b where "a = At k b" "registers b"
  | (Check) k j where "a = At k (Tx_frame_end j)"
  | (Other) "\<forall>k b. a = At k b \<longrightarrow> \<not> registers b" "\<forall>k j. a \<noteq> At k (Tx_frame_end j)"
proof (cases a)
  case (Advance t)
  with that(3) show ?thesis by simp
next
  case (At k b)
  show ?thesis
  proof (cases "registers b")
    case True
    with At that(1) show ?thesis by blast
  next
    case False
    show ?thesis
    proof (cases "\<exists>j. b = Tx_frame_end j")
      case True
      with At that(2) show ?thesis by blast
    next
      case no: False
      with At False that(3) show ?thesis by simp
    qed
  qed
qed

lemma global_inv_parts:
  assumes "global_inv s"
  shows "\<forall>nd \<in> set (nodes s). node_inv (now s) nd" "\<forall>nd \<in> set (nodes s). server_inv nd"
    "names_inv s" "registry_inv s" "fifo_inv s"
  using assms by (simp_all add: global_inv_def node_inv_def)

lemma registry_invD:
  assumes "registry_inv s" "flight s k i"
  shows "dict_get (frames_in_transmit (chan s)) (frame_id_of s k i) = Some (tx_frame (msg_at s k i))"
    "tx_frame (msg_at s k i) < next_obj (chan s)"
    "start (objs (chan s) (tx_frame (msg_at s k i))) = tx_transmit_time (msg_at s k i)"
    "end' (objs (chan s) (tx_frame (msg_at s k i))) = m_wake (msg_at s k i)"
  using assms by (simp_all add: registry_inv_def)

text \<open>One lemma for each kind of step: a step that registers no frame and is no
  timeout of a frame, the timeout of a frame, and the registration of a frame.\<close>

lemma registry_inv_other:
  assumes st: "step a s = Some (Inr s')" and inv: "global_inv s"
    and other: "\<forall>k b. a = At k b \<longrightarrow> \<not> registers b" "\<forall>k j. a \<noteq> At k (Tx_frame_end j)"
    and f: "flight s' k i"
  shows "dict_get (frames_in_transmit (chan s')) (frame_id_of s' k i) = Some (tx_frame (msg_at s' k i))
        \<and> tx_frame (msg_at s' k i) < next_obj (chan s')
        \<and> start (objs (chan s') (tx_frame (msg_at s' k i))) = tx_transmit_time (msg_at s' k i)
        \<and> end' (objs (chan s') (tx_frame (msg_at s' k i))) = m_wake (msg_at s' k i)"
proof -
  from step_chan_same [OF st other] have c: "chan s' = chan s" .
  from other(1) have nr: "\<forall>b. a = At k b \<longrightarrow> \<not> registers b" by blast
  from flight_before [OF st f nr] have old: "flight s k i" "a \<noteq> At k (Tx_frame_end i)"
    by simp_all
  note keep = flight_keeps [OF st old]
  note d = registry_invD [OF global_inv_parts(4) [OF inv] old(1)]
  show ?thesis
    unfolding c keep(2) keep(3) using d by simp
qed

lemma registry_inv_check:
  assumes st: "step (At k0 (Tx_frame_end j)) s = Some (Inr s')" and inv: "global_inv s"
    and f: "flight s' k i"
  shows "dict_get (frames_in_transmit (chan s')) (frame_id_of s' k i) = Some (tx_frame (msg_at s' k i))
        \<and> tx_frame (msg_at s' k i) < next_obj (chan s')
        \<and> start (objs (chan s') (tx_frame (msg_at s' k i))) = tx_transmit_time (msg_at s' k i)
        \<and> end' (objs (chan s') (tx_frame (msg_at s' k i))) = m_wake (msg_at s' k i)"
proof -
  note ch = step_check [OF st]
  have nr: "\<forall>b. At k0 (Tx_frame_end j) = At k b \<longrightarrow> \<not> registers b" by simp
  from flight_before [OF st f nr] have old: "flight s k i" "At k0 (Tx_frame_end j) \<noteq> At k (Tx_frame_end i)"
    by simp_all
  then have ne: "(k, i) \<noteq> (k0, j)" by auto
  note keep = flight_keeps [OF st old]
  note d = registry_invD [OF global_inv_parts(4) [OF inv] old(1)]
  from flight_ids_distinct(1) [OF global_inv_parts(3,2) [OF inv] old(1) ch(1) ne]
  have idne: "frame_id_of s k i \<noteq> frame_id_of s k0 j" .
  have reg: "dict_get (frames_in_transmit (chan s')) (frame_id_of s k i)
             = dict_get (frames_in_transmit (chan s)) (frame_id_of s k i)"
    unfolding ch(3) using idne by (simp add: dict_get_del_other)
  have nxt: "next_obj (chan s') = next_obj (chan s)"
    unfolding ch(3) by (simp add: check_collision_objs)
  have fields: "start (objs (chan s') x) = start (objs (chan s) x)"
      "end' (objs (chan s') x) = end' (objs (chan s) x)" for x
    unfolding ch(3) by (simp_all add: check_collision_objs)
  show ?thesis
    unfolding keep(2) keep(3) reg nxt fields using d by simp
qed

lemma registry_inv_reg:
  assumes st: "step (At k0 b) s = Some (Inr s')" and rb: "registers b" and inv: "global_inv s"
    and f: "flight s' k i"
  shows "dict_get (frames_in_transmit (chan s')) (frame_id_of s' k i) = Some (tx_frame (msg_at s' k i))
        \<and> tx_frame (msg_at s' k i) < next_obj (chan s')
        \<and> start (objs (chan s') (tx_frame (msg_at s' k i))) = tx_transmit_time (msg_at s' k i)
        \<and> end' (objs (chan s') (tx_frame (msg_at s' k i))) = m_wake (msg_at s' k i)"
proof (rule step_registers [OF st rb global_inv_parts(1) [OF inv]])
  fix j ft
  assume r: "k0 < length (nodes s)" "j < length (msgs (nodes s ! k0))" "0 < ft"
    "chan s' = (chan s)\<lparr>objs := (objs (chan s))(next_obj (chan s) := create_frame (now s) ft),
          next_obj := Suc (next_obj (chan s)),
          frames_in_transmit := dict_set (frames_in_transmit (chan s)) (frame_id_of s k0 j) (next_obj (chan s))\<rparr>"
    "flight s' k0 j" "\<not> flight s k0 j" "frame_id_of s' k0 j = frame_id_of s k0 j"
    "tx_frame (msg_at s' k0 j) = next_obj (chan s)"
    "tx_transmit_time (msg_at s' k0 j) = now s" "m_wake (msg_at s' k0 j) = now s + ft"
    "\<forall>k i. flight s' k i \<and> (k, i) \<noteq> (k0, j) \<longrightarrow> flight s k i \<and> msg_at s' k i = msg_at s k i
        \<and> frame_id_of s' k i = frame_id_of s k i \<and> k \<noteq> k0"
    "no_frame_due s"
  have reg: "frames_in_transmit (chan s')
      = dict_set (frames_in_transmit (chan s)) (frame_id_of s k0 j) (next_obj (chan s))"
    and nxt: "next_obj (chan s') = Suc (next_obj (chan s))"
    and ob: "objs (chan s') = (objs (chan s))(next_obj (chan s) := create_frame (now s) ft)"
    unfolding r(4) by simp_all
  show ?thesis
  proof (cases "(k, i) = (k0, j)")
    case True
    then have ki: "k = k0" "i = j" by simp_all
    show ?thesis
      unfolding ki reg nxt ob r(7) r(8) r(9) r(10)
      by (simp add: dict_get_set_same create_frame_def Frame_init_def)
  next
    case False
    from f False have "flight s' k i \<and> (k, i) \<noteq> (k0, j)" by simp
    from r(11) [rule_format, OF this]
    have o: "flight s k i \<and> msg_at s' k i = msg_at s k i
        \<and> frame_id_of s' k i = frame_id_of s k i \<and> k \<noteq> k0" .
    then have old: "flight s k i" "msg_at s' k i = msg_at s k i"
        "frame_id_of s' k i = frame_id_of s k i" "k \<noteq> k0"
      by simp_all
    note d = registry_invD [OF global_inv_parts(4) [OF inv] old(1)]
    from old(1) have "k < length (nodes s)" by (simp add: flight_def)
    from names_distinct [OF global_inv_parts(3) [OF inv] this r(1) old(4)]
    have idne: "frame_id_of s k i \<noteq> frame_id_of s k0 j" by (simp add: frame_id_of_def)
    from d(2) have ane: "tx_frame (msg_at s k i) \<noteq> next_obj (chan s)" by simp
    show ?thesis
      unfolding old(2) old(3) reg nxt ob
      using d idne ane by (simp add: dict_get_set_other)
  qed
qed

lemma registry_inv_step:
  assumes st: "step a s = Some (Inr s')" and inv: "global_inv s"
  shows "registry_inv s'"
proof -
  have "dict_get (frames_in_transmit (chan s')) (frame_id_of s' k i) = Some (tx_frame (msg_at s' k i))
        \<and> tx_frame (msg_at s' k i) < next_obj (chan s')
        \<and> start (objs (chan s') (tx_frame (msg_at s' k i))) = tx_transmit_time (msg_at s' k i)
        \<and> end' (objs (chan s') (tx_frame (msg_at s' k i))) = m_wake (msg_at s' k i)" if f: "flight s' k i" for k i
  proof (cases a rule: action_cases)
    case (Reg k0 b)
    with st have "step (At k0 b) s = Some (Inr s')" by simp
    from registry_inv_reg [OF this Reg(2) inv f] show ?thesis .
  next
    case (Check k0 j)
    with st have "step (At k0 (Tx_frame_end j)) s = Some (Inr s')" by simp
    from registry_inv_check [OF this inv f] show ?thesis .
  next
    case Other
    from registry_inv_other [OF st inv Other f] show ?thesis .
  qed
  then show ?thesis by (simp add: registry_inv_def)
qed

lemma flight_times:
  assumes "\<forall>nd \<in> set (nodes s). node_inv (now s) nd" "flight s k i"
  shows "tx_transmit_time (msg_at s k i) \<le> now s" "now s \<le> m_wake (msg_at s k i)"
proof -
  from assms(2) have m: "nodes s ! k \<in> set (nodes s)" "msg_at s k i \<in> set (msgs (nodes s ! k))"
      "m_pc (msg_at s k i) = Tx_yield_timeout"
    by (simp_all add: flight_def msg_at_def)
  with assms(1) have "sending_ok (now s) (station (nodes s ! k)) (msg_at s k i)"
    by (simp add: node_inv_def busy_inv_def)
  with m(3) show "tx_transmit_time (msg_at s k i) \<le> now s" "now s \<le> m_wake (msg_at s k i)"
    by (simp_all add: sending_ok_def)
qed

lemma fifo_inv_reg:
  assumes st: "step (At k0 b) s = Some (Inr s')" and rb: "registers b" and inv: "global_inv s"
    and f: "flight s' k i" "flight s' k' i'"
  shows "tx_transmit_time (msg_at s' k i) < m_wake (msg_at s' k' i')"
proof (rule step_registers [OF st rb global_inv_parts(1) [OF inv]])
  fix j ft
  assume r: "k0 < length (nodes s)" "j < length (msgs (nodes s ! k0))" "0 < ft"
    "chan s' = (chan s)\<lparr>objs := (objs (chan s))(next_obj (chan s) := create_frame (now s) ft),
          next_obj := Suc (next_obj (chan s)),
          frames_in_transmit := dict_set (frames_in_transmit (chan s)) (frame_id_of s k0 j) (next_obj (chan s))\<rparr>"
    "flight s' k0 j" "\<not> flight s k0 j" "frame_id_of s' k0 j = frame_id_of s k0 j"
    "tx_frame (msg_at s' k0 j) = next_obj (chan s)"
    "tx_transmit_time (msg_at s' k0 j) = now s" "m_wake (msg_at s' k0 j) = now s + ft"
    "\<forall>k i. flight s' k i \<and> (k, i) \<noteq> (k0, j) \<longrightarrow> flight s k i \<and> msg_at s' k i = msg_at s k i
        \<and> frame_id_of s' k i = frame_id_of s k i \<and> k \<noteq> k0"
    "no_frame_due s"
  have due: "now s < m_wake (msg_at s x y)" if "flight s x y" for x y
  proof -
    from that have "nodes s ! x \<in> set (nodes s)" "msg_at s x y \<in> set (msgs (nodes s ! x))"
        "m_pc (msg_at s x y) = Tx_yield_timeout"
      by (simp_all add: flight_def msg_at_def)
    with r(12) show ?thesis unfolding no_frame_due_def by blast
  qed
  have old: "flight s x y \<and> msg_at s' x y = msg_at s x y"
    if "flight s' x y" "(x, y) \<noteq> (k0, j)" for x y
  proof -
    from that have "flight s' x y \<and> (x, y) \<noteq> (k0, j)" by simp
    from r(11) [rule_format, OF this] show ?thesis by simp
  qed
  show ?thesis
  proof (cases "(k, i) = (k0, j)")
    case new1: True
    then have ki: "k = k0" "i = j" by simp_all
    show ?thesis
    proof (cases "(k', i') = (k0, j)")
      case True
      then have ki': "k' = k0" "i' = j" by simp_all
      show ?thesis unfolding ki ki' r(9) r(10) using r(3) by simp
    next
      case False
      from old [OF f(2) False] due [of k' i'] show ?thesis
        unfolding ki r(9) by simp
    qed
  next
    case old1: False
    note o1 = old [OF f(1) old1]
    show ?thesis
    proof (cases "(k', i') = (k0, j)")
      case True
      then have ki': "k' = k0" "i' = j" by simp_all
      from o1 have "flight s k i" by simp
      from flight_times(1) [OF global_inv_parts(1) [OF inv] this] o1 r(3)
      show ?thesis unfolding ki' r(10) by simp
    next
      case False
      from old [OF f(2) False] o1 global_inv_parts(5) [OF inv] show ?thesis
        by (simp add: fifo_inv_def)
    qed
  qed
qed

lemma fifo_inv_step:
  assumes st: "step a s = Some (Inr s')" and inv: "global_inv s"
  shows "fifo_inv s'"
proof -
  have "tx_transmit_time (msg_at s' k i) < m_wake (msg_at s' k' i')"
    if f: "flight s' k i" "flight s' k' i'" for k i k' i'
  proof (cases "\<exists>k0 b. a = At k0 b \<and> registers b")
    case True
    then obtain k0 b where Reg: "a = At k0 b" "registers b" by blast
    with st have "step (At k0 b) s = Some (Inr s')" by simp
    from fifo_inv_reg [OF this Reg(2) inv f] show ?thesis .
  next
    case False
    have old: "flight s x y \<and> msg_at s' x y = msg_at s x y" if g: "flight s' x y" for x y
    proof -
      from False have nr: "\<forall>b. a = At x b \<longrightarrow> \<not> registers b" by blast
      from flight_before [OF st g nr] have o: "flight s x y" "a \<noteq> At x (Tx_frame_end y)"
        by simp_all
      from flight_keeps(2) [OF st o] o(1) show ?thesis by simp
    qed
    from old [OF f(1)] old [OF f(2)] global_inv_parts(5) [OF inv] show ?thesis
      by (simp add: fifo_inv_def)
  qed
  then show ?thesis by (simp add: fifo_inv_def)
qed

lemma global_inv_step:
  assumes inv: "global_inv s" and st: "step a s = Some (Inr s')"
  shows "global_inv s'"
proof -
  have "\<forall>nd \<in> set (nodes s'). node_inv (now s') nd"
    by (rule nodes_timed_invariant_step [where I = node_inv, OF st global_inv_parts(1) [OF inv]])
       (auto intro: node_inv_step node_inv_advance)
  moreover have "names_inv s'"
    using step_names [OF st] global_inv_parts(3) [OF inv] by (simp add: names_inv_def)
  ultimately show ?thesis
    using registry_inv_step [OF st inv] fifo_inv_step [OF st inv]
    by (simp add: global_inv_def)
qed

lemma station_names_distinct:
  "distinct (map (\<lambda>i. ''Station '' @ str_of_nat i) [0 ..< NUM_STATIONS])"
  by code_simp

lemma global_inv_init: "global_inv (sim_init c)"
proof -
  have "\<forall>nd \<in> set (nodes (sim_init c)). node_inv 0 nd"
    by (simp add: sim_init_def node_init_def node_inv_def server_inv_def srv_ok_def
        history_inv_def busy_inv_def any_sending_def busy_bound_def Station_init_def
        TRANSIENT_TIME_def)
  moreover have "names_inv (sim_init c)"
    using station_names_distinct
    by (simp add: names_inv_def sim_init_def node_init_def Station_init_def comp_def)
  moreover have "msgs nd = []" if "nd \<in> set (nodes (sim_init c))" for nd
    using that by (auto simp: sim_init_def node_init_def)
  then have "\<not> flight (sim_init c) k i" for k i
    by (auto simp: flight_def)
  ultimately show ?thesis
    by (simp add: global_inv_def registry_inv_def fifo_inv_def) (simp add: sim_init_def)
qed

lemma global_inv_exec:
  assumes "exec acts s = Some (Inr s')" "global_inv s"
  shows "global_inv s'"
  by (rule exec_invariant [OF assms(1), where P = global_inv, OF assms(2)])
     (rule global_inv_step)

lemma global_inv_reachable:
  assumes "reachable_from c s"
  shows "global_inv s"
  using assms global_inv_exec [OF _ global_inv_init]
  by (auto simp: reachable_from_def)

subsection \<open>Overlapping frames on the air are both flagged\<close>

lemma overlaps_sym: "overlaps x y \<longleftrightarrow> overlaps y x"
  by (auto simp: overlaps_def)

lemma check_collision_flags:
  assumes "has_collision c f fid" "(key, x) \<in> set (frames_in_transmit c)"
  shows "retry (objs (check_collision c f fid) x)"
  using assms by (simp add: check_collision_def set_all_retry_in)

lemma check_collision_same:
  assumes "\<not> has_collision c f fid"
  shows "check_collision c f fid = c"
  using assms by (simp add: check_collision_def)

text \<open>Objects that are allocated keep their times, and a flag that is set stays set.\<close>

lemma step_objs:
  assumes st: "step a s = Some (Inr s')" and inv: "global_inv s" and x: "x < next_obj (chan s)"
  shows "x < next_obj (chan s')" "start (objs (chan s') x) = start (objs (chan s) x)"
    "end' (objs (chan s') x) = end' (objs (chan s) x)"
    "retry (objs (chan s) x) \<Longrightarrow> retry (objs (chan s') x)"
proof -
  have "x < next_obj (chan s') \<and> start (objs (chan s') x) = start (objs (chan s) x)
        \<and> end' (objs (chan s') x) = end' (objs (chan s) x)
        \<and> (retry (objs (chan s) x) \<longrightarrow> retry (objs (chan s') x))"
  proof (cases a rule: action_cases)
    case (Reg k0 b)
    with st have st': "step (At k0 b) s = Some (Inr s')" by simp
    show ?thesis
    proof (rule step_registers [OF st' Reg(2) global_inv_parts(1) [OF inv]])
      fix j ft
      assume "chan s' = (chan s)\<lparr>objs := (objs (chan s))(next_obj (chan s) := create_frame (now s) ft),
          next_obj := Suc (next_obj (chan s)),
          frames_in_transmit := dict_set (frames_in_transmit (chan s)) (frame_id_of s k0 j) (next_obj (chan s))\<rparr>"
      with x show ?thesis by simp
    qed
  next
    case (Check k0 j)
    with st have "step (At k0 (Tx_frame_end j)) s = Some (Inr s')" by simp
    from step_check(3) [OF this] x show ?thesis
      by (simp add: check_collision_objs)
  next
    case Other
    from step_chan_same [OF st Other] x show ?thesis by simp
  qed
  then show "x < next_obj (chan s')" "start (objs (chan s') x) = start (objs (chan s) x)"
    "end' (objs (chan s') x) = end' (objs (chan s) x)"
    "retry (objs (chan s) x) \<Longrightarrow> retry (objs (chan s') x)"
    by simp_all
qed

text \<open>The check of a frame that overlaps another frame on the air flags both.\<close>

lemma check_flags_both:
  assumes st: "step (At k (Tx_frame_end i)) s = Some (Inr s')" and inv: "global_inv s"
    and f: "flight s k' i'" and ne: "(k, i) \<noteq> (k', i')"
    and ov: "overlaps (frame_of s k i) (frame_of s k' i')"
  shows "retry (objs (chan s') (tx_frame (msg_at s k i)))"
    "retry (objs (chan s') (tx_frame (msg_at s k' i')))"
proof -
  note ch = step_check [OF st]
  note dx = registry_invD [OF global_inv_parts(4) [OF inv] ch(1)]
  note dy = registry_invD [OF global_inv_parts(4) [OF inv] f]
  from flight_ids_distinct(1) [OF global_inv_parts(3,2) [OF inv] f ch(1)] ne
  have idne: "frame_id_of s k' i' \<noteq> frame_id_of s k i" by auto
  from dict_get_in_set [OF dx(1)] dict_get_in_set [OF dy(1)]
  have mem: "(frame_id_of s k i, tx_frame (msg_at s k i)) \<in> set (frames_in_transmit (chan s))"
    "(frame_id_of s k' i', tx_frame (msg_at s k' i')) \<in> set (frames_in_transmit (chan s))"
    by simp_all
  from ov have "overlaps (objs (chan s) (tx_frame (msg_at s k' i'))) (objs (chan s) (tx_frame (msg_at s k i)))"
    by (simp add: frame_of_def overlaps_sym)
  with mem(2) idne have hc: "has_collision (chan s) (tx_frame (msg_at s k i)) (frame_id_of s k i)"
    unfolding has_collision_iff by blast
  from check_collision_flags [OF hc mem(1)] check_collision_flags [OF hc mem(2)]
  show "retry (objs (chan s') (tx_frame (msg_at s k i)))"
    "retry (objs (chan s') (tx_frame (msg_at s k' i')))"
    unfolding ch(3) by simp_all
qed

lemma pair_inv_step:
  assumes st: "step act s = Some (Inr s')" and inv: "global_inv s"
    and p: "pair_inv a b k i k' i' s" and ne: "(k, i) \<noteq> (k', i')"
  shows "pair_inv a b k i k' i' s'"
proof -
  from p have al: "a < next_obj (chan s)" "b < next_obj (chan s)"
    and ov: "overlaps (objs (chan s) a) (objs (chan s) b)"
    by (simp_all add: pair_inv_def)
  note oa = step_objs [OF st inv al(1)]
  note ob = step_objs [OF st inv al(2)]
  from ov oa(2,3) ob(2,3) have ov': "overlaps (objs (chan s') a) (objs (chan s') b)"
    by (simp add: overlaps_def)
  have "(flight s' k i \<and> tx_frame (msg_at s' k i) = a \<and> flight s' k' i' \<and> tx_frame (msg_at s' k' i') = b)
         \<or> (retry (objs (chan s') a) \<and> retry (objs (chan s') b))"
  proof (cases "retry (objs (chan s) a) \<and> retry (objs (chan s) b)")
    case True
    with oa(4) ob(4) show ?thesis by simp
  next
    case False
    with p have fl: "flight s k i" "tx_frame (msg_at s k i) = a"
        "flight s k' i'" "tx_frame (msg_at s k' i') = b"
      by (auto simp: pair_inv_def)
    from ov fl have ovf: "overlaps (frame_of s k i) (frame_of s k' i')"
      by (simp add: frame_of_def)
    show ?thesis
    proof (cases "act = At k (Tx_frame_end i)")
      case True
      with st have "step (At k (Tx_frame_end i)) s = Some (Inr s')" by simp
      from check_flags_both [OF this inv fl(3) ne ovf] fl show ?thesis by simp
    next
      case n1: False
      show ?thesis
      proof (cases "act = At k' (Tx_frame_end i')")
        case True
        with st have st': "step (At k' (Tx_frame_end i')) s = Some (Inr s')" by simp
        from ne have ne': "(k', i') \<noteq> (k, i)" by auto
        from ovf have "overlaps (frame_of s k' i') (frame_of s k i)" by (simp add: overlaps_sym)
        from check_flags_both [OF st' inv fl(1) ne' this] fl show ?thesis by simp
      next
        case n2: False
        from flight_keeps(1,2) [OF st fl(1) n1] flight_keeps(1,2) [OF st fl(3) n2] fl
        show ?thesis by simp
      qed
    qed
  qed
  with oa(1) ob(1) ov' show ?thesis by (simp add: pair_inv_def)
qed

lemma pair_inv_exec:
  assumes "exec acts s = Some (Inr s2)" "global_inv s" "pair_inv a b k i k' i' s" "(k, i) \<noteq> (k', i')"
  shows "pair_inv a b k i k' i' s2"
proof -
  have "global_inv s2 \<and> pair_inv a b k i k' i' s2"
  proof (rule exec_invariant [OF assms(1), where P = "\<lambda>s. global_inv s \<and> pair_inv a b k i k' i' s"])
    show "global_inv s \<and> pair_inv a b k i k' i' s" using assms(2,3) by simp
  next
    fix act s s'
    assume "global_inv s \<and> pair_inv a b k i k' i' s" "step act s = Some (Inr s')"
    then show "global_inv s' \<and> pair_inv a b k i k' i' s'"
      using global_inv_step [of s act s'] pair_inv_step [of act s s' a b k i k' i'] assms(4)
      by simp
  qed
  then show ?thesis by simp
qed

text \<open>A step that sets the flag of a frame on the air: the frame overlaps another
  registered frame.\<close>

lemma flag_needs_overlap:
  assumes st: "step a s = Some (Inr s')" and inv: "global_inv s" and f: "flight s k i"
    and before: "\<not> retry (frame_of s k i)"
    and after: "retry (objs (chan s') (tx_frame (msg_at s k i)))"
  shows "\<exists>(key, b) \<in> set (frames_in_transmit (chan s)).
           key \<noteq> frame_id_of s k i \<and> overlaps (objs (chan s) b) (frame_of s k i)"
proof (cases a rule: action_cases)
  case (Reg k0 b)
  with st have st': "step (At k0 b) s = Some (Inr s')" by simp
  note d = registry_invD [OF global_inv_parts(4) [OF inv] f]
  have "objs (chan s') (tx_frame (msg_at s k i)) = objs (chan s) (tx_frame (msg_at s k i))"
  proof (rule step_registers [OF st' Reg(2) global_inv_parts(1) [OF inv]])
    fix j ft
    assume "chan s' = (chan s)\<lparr>objs := (objs (chan s))(next_obj (chan s) := create_frame (now s) ft),
          next_obj := Suc (next_obj (chan s)),
          frames_in_transmit := dict_set (frames_in_transmit (chan s)) (frame_id_of s k0 j) (next_obj (chan s))\<rparr>"
    with d(2) show ?thesis by simp
  qed
  with before after show ?thesis by (simp add: frame_of_def)
next
  case Other
  from step_chan_same [OF st Other] before after show ?thesis by (simp add: frame_of_def)
next
  case (Check k0 j)
  with st have st': "step (At k0 (Tx_frame_end j)) s = Some (Inr s')" by simp
  note ch = step_check [OF st']
  have hc: "has_collision (chan s) (tx_frame (msg_at s k0 j)) (frame_id_of s k0 j)"
  proof (rule ccontr)
    assume "\<not> has_collision (chan s) (tx_frame (msg_at s k0 j)) (frame_id_of s k0 j)"
    from check_collision_same [OF this] ch(3) before after show False
      by (simp add: frame_of_def)
  qed
  show ?thesis
  proof (cases "(k, i) = (k0, j)")
    case True
    with hc show ?thesis
      unfolding has_collision_iff frame_of_def by simp
  next
    case False
    note dx = registry_invD [OF global_inv_parts(4) [OF inv] ch(1)]
    note dm = registry_invD [OF global_inv_parts(4) [OF inv] f]
    from flight_ids_distinct(1) [OF global_inv_parts(3,2) [OF inv] ch(1) f] False
    have idne: "frame_id_of s k0 j \<noteq> frame_id_of s k i" by auto
    from global_inv_parts(5) [OF inv] f ch(1)
    have "tx_transmit_time (msg_at s k i) < m_wake (msg_at s k0 j)"
      "tx_transmit_time (msg_at s k0 j) < m_wake (msg_at s k i)"
      by (simp_all add: fifo_inv_def)
    with dx(3,4) dm(3,4)
    have "overlaps (objs (chan s) (tx_frame (msg_at s k0 j))) (frame_of s k i)"
      by (simp add: overlaps_def frame_of_def)
    with dict_get_in_set [OF dx(1)] idne show ?thesis by blast
  qed
qed

text \<open>
  C2, as the code has it. The frames are those of the attempts that are running. Two
  frames on the air at the same time whose intervals overlap are both flagged when
  their attempts are over. And a step that sets the flag of a frame on the air is a
  check that finds it to overlap another frame in the registry.
\<close>

theorem overlapping_frames_flagged:
  assumes "reachable_from c s"
  shows "(\<forall>k i k' i' acts s2.
            flight s k i \<and> flight s k' i' \<and> (k, i) \<noteq> (k', i')
            \<and> overlaps (frame_of s k i) (frame_of s k' i')
            \<and> exec acts s = Some (Inr s2) \<longrightarrow>
            (attempt_over s2 k i (tx_frame (msg_at s k i)) \<longrightarrow>
               retry (objs (chan s2) (tx_frame (msg_at s k i))))
            \<and> (attempt_over s2 k' i' (tx_frame (msg_at s k' i')) \<longrightarrow>
               retry (objs (chan s2) (tx_frame (msg_at s k' i')))))
       \<and> (\<forall>a s' k i.
            step a s = Some (Inr s') \<and> flight s k i \<and> \<not> retry (frame_of s k i)
            \<and> retry (objs (chan s') (tx_frame (msg_at s k i))) \<longrightarrow>
            (\<exists>(key, b) \<in> set (frames_in_transmit (chan s)).
               key \<noteq> frame_id_of s k i \<and> overlaps (objs (chan s) b) (frame_of s k i)))"
proof (intro conjI allI impI)
  note inv = global_inv_reachable [OF assms]
  fix a s' k i
  assume "step a s = Some (Inr s') \<and> flight s k i \<and> \<not> retry (frame_of s k i)
            \<and> retry (objs (chan s') (tx_frame (msg_at s k i)))"
  then show "\<exists>(key, b) \<in> set (frames_in_transmit (chan s)).
               key \<noteq> frame_id_of s k i \<and> overlaps (objs (chan s) b) (frame_of s k i)"
    using flag_needs_overlap [OF _ inv, of a s' k i] by blast
next
  note inv = global_inv_reachable [OF assms]
  fix k i k' i' acts s2
  assume h: "flight s k i \<and> flight s k' i' \<and> (k, i) \<noteq> (k', i')
            \<and> overlaps (frame_of s k i) (frame_of s k' i')
            \<and> exec acts s = Some (Inr s2)"
  then have fl: "flight s k i" "flight s k' i'" and ne: "(k, i) \<noteq> (k', i')"
    and ov: "overlaps (frame_of s k i) (frame_of s k' i')"
    and ex: "exec acts s = Some (Inr s2)"
    by simp_all
  note dx = registry_invD [OF global_inv_parts(4) [OF inv] fl(1)]
  note dy = registry_invD [OF global_inv_parts(4) [OF inv] fl(2)]
  from fl ov dx(2) dy(2)
  have "pair_inv (tx_frame (msg_at s k i)) (tx_frame (msg_at s k' i')) k i k' i' s"
    by (simp add: pair_inv_def frame_of_def)
  from pair_inv_exec [OF ex inv this ne]
  have p: "pair_inv (tx_frame (msg_at s k i)) (tx_frame (msg_at s k' i')) k i k' i' s2" .
  {
    assume "attempt_over s2 k i (tx_frame (msg_at s k i))"
    with p show "retry (objs (chan s2) (tx_frame (msg_at s k i)))"
      by (auto simp: pair_inv_def attempt_over_def)
  }
  {
    assume "attempt_over s2 k' i' (tx_frame (msg_at s k' i'))"
    with p show "retry (objs (chan s2) (tx_frame (msg_at s k' i')))"
      by (auto simp: pair_inv_def attempt_over_def)
  }
qed

lemma run_caseE:
  assumes "case r of Some (Inr s) \<Rightarrow> P s | _ \<Rightarrow> False"
  obtains s where "r = Some (Inr s)" "P s"
  using assms by (auto split: option.splits sum.splits)

theorem overlapping_frames_flagged_witness:
  "\<exists>s s2. exec ex_collision_head (sim_init empty_channel) = Some (Inr s)
       \<and> exec ex_collision_tail s = Some (Inr s2)
       \<and> flight s 0 0 \<and> flight s 1 0
       \<and> overlaps (frame_of s 0 0) (frame_of s 1 0)
       \<and> attempt_over s2 0 0 (tx_frame (msg_at s 0 0))
       \<and> attempt_over s2 1 0 (tx_frame (msg_at s 1 0))
       \<and> retry (objs (chan s2) (tx_frame (msg_at s 0 0)))
       \<and> retry (objs (chan s2) (tx_frame (msg_at s 1 0)))"
proof -
  have "case exec ex_collision_head (sim_init empty_channel) of
          Some (Inr s) \<Rightarrow>
            flight s 0 0 \<and> flight s 1 0 \<and> overlaps (frame_of s 0 0) (frame_of s 1 0)
            \<and> (case exec ex_collision_tail s of
                  Some (Inr s2) \<Rightarrow>
                    attempt_over s2 0 0 (tx_frame (msg_at s 0 0))
                    \<and> attempt_over s2 1 0 (tx_frame (msg_at s 1 0))
                | _ \<Rightarrow> False)
        | _ \<Rightarrow> False"
    by code_simp
  then obtain s where s1: "exec ex_collision_head (sim_init empty_channel) = Some (Inr s)"
    and s2: "flight s 0 0 \<and> flight s 1 0 \<and> overlaps (frame_of s 0 0) (frame_of s 1 0)
            \<and> (case exec ex_collision_tail s of
                  Some (Inr s2) \<Rightarrow>
                    attempt_over s2 0 0 (tx_frame (msg_at s 0 0))
                    \<and> attempt_over s2 1 0 (tx_frame (msg_at s 1 0))
                | _ \<Rightarrow> False)"
    by (rule run_caseE)
  from s2 have "case exec ex_collision_tail s of
                  Some (Inr s2) \<Rightarrow>
                    attempt_over s2 0 0 (tx_frame (msg_at s 0 0))
                    \<and> attempt_over s2 1 0 (tx_frame (msg_at s 1 0))
                | _ \<Rightarrow> False"
    by simp
  then obtain s2 where s3: "exec ex_collision_tail s = Some (Inr s2)"
    and s4: "attempt_over s2 0 0 (tx_frame (msg_at s 0 0))
                    \<and> attempt_over s2 1 0 (tx_frame (msg_at s 1 0))"
    by (rule run_caseE)
  from s1 s2 s3 s4 have s: "exec ex_collision_head (sim_init empty_channel) = Some (Inr s)"
      "flight s 0 0" "flight s 1 0" "overlaps (frame_of s 0 0) (frame_of s 1 0)"
      "exec ex_collision_tail s = Some (Inr s2)"
      "attempt_over s2 0 0 (tx_frame (msg_at s 0 0))"
      "attempt_over s2 1 0 (tx_frame (msg_at s 1 0))"
    by simp_all
  from s(1) have r: "reachable_from empty_channel s"
    by (auto simp: reachable_from_def)
  have ne: "((0::nat), (0::nat)) \<noteq> (1, 0)" by simp
  from overlapping_frames_flagged [OF r, THEN conjunct1, rule_format, of 0 0 1 0 ex_collision_tail s2]
    s ne
  have "retry (objs (chan s2) (tx_frame (msg_at s 0 0)))"
    "retry (objs (chan s2) (tx_frame (msg_at s 1 0)))"
    by simp_all
  with s show ?thesis by blast
qed

subsection \<open>The busy time of all stations together\<close>

lemma sum_list_map_update:
  fixes f :: "'a \<Rightarrow> int"
  shows "k < length xs \<Longrightarrow> sum_list (map f (xs[k := y])) = sum_list (map f xs) - f (xs ! k) + f y"
proof (induction xs arbitrary: k)
  case Nil
  then show ?case by simp
next
  case (Cons x xs)
  then show ?case by (cases k) simp_all
qed

lemma sum_list_map_zero:
  fixes f :: "'a \<Rightarrow> int"
  shows "\<forall>x \<in> set xs. f x = 0 \<Longrightarrow> sum_list (map f xs) = 0"
  by (induction xs) simp_all

lemma node_step_reset_busy:
  assumes "node_step b t c nd = Some (Inr (c', nd'))" "\<forall>j. b \<noteq> Tx_frame_end j"
  shows "reset_busy nd' = reset_busy nd"
  using assms by (cases rule: node_stepE) (simp_all add: reset_busy_def)

lemma node_step_check_busy:
  assumes "node_step (Tx_frame_end j) t c nd = Some (Inr (c', nd'))"
  shows "reset_busy nd' = reset_busy nd +
           (if retry (objs c' (tx_frame (msgs nd ! j))) then 0
            else if initial_reset_completed (station nd) then t - tx_transmit_time (msgs nd ! j)
            else 0)"
  using assms by (cases rule: node_stepE) (simp_all add: reset_busy_def)

lemma step_total_same:
  assumes st: "step a s = Some (Inr s')" "\<forall>k j. a \<noteq> At k (Tx_frame_end j)"
  shows "total_reset_busy s' = total_reset_busy s"
  using st(1)
proof (cases rule: stepE)
  case (Advance t)
  then show ?thesis by (simp add: total_reset_busy_def)
next
  case (At k b c nd)
  with st(2) have "\<forall>j. b \<noteq> Tx_frame_end j" by simp
  from node_step_reset_busy [OF At(4) this] At(2,5) show ?thesis
    by (simp add: total_reset_busy_def sum_list_map_update)
qed

lemma step_total_check:
  assumes st: "step (At k (Tx_frame_end j)) s = Some (Inr s')"
  shows "total_reset_busy s' = total_reset_busy s +
           (if retry (objs (chan s') (tx_frame (msg_at s k j))) then 0
            else if initial_reset_completed (station (nodes s ! k))
              then now s - tx_transmit_time (msg_at s k j)
            else 0)"
proof -
  from st obtain c nd where At: "k < length (nodes s)"
    "node_step (Tx_frame_end j) (now s) (chan s) (nodes s ! k) = Some (Inr (c, nd))"
    "s' = s\<lparr>chan := c, nodes := (nodes s)[k := nd]\<rparr>"
    by (elim step_AtE) simp
  from node_step_check_busy [OF At(2)] At(1,3) show ?thesis
    by (simp add: total_reset_busy_def sum_list_map_update msg_at_def)
qed

text \<open>Frames on the air together overlap.\<close>

lemma flights_overlap:
  assumes inv: "global_inv s" and f: "flight s k i" "flight s k' i'"
  shows "overlaps (frame_of s k i) (frame_of s k' i')"
proof -
  note dx = registry_invD [OF global_inv_parts(4) [OF inv] f(1)]
  note dy = registry_invD [OF global_inv_parts(4) [OF inv] f(2)]
  from global_inv_parts(5) [OF inv] f
  have "tx_transmit_time (msg_at s k i) < m_wake (msg_at s k' i')"
    "tx_transmit_time (msg_at s k' i') < m_wake (msg_at s k i)"
    by (simp_all add: fifo_inv_def)
  with dx(3,4) dy(3,4) show ?thesis by (simp add: overlaps_def frame_of_def)
qed

text \<open>A frame on the air of a station that has been reset started at or after the
  cutoff.\<close>

lemma flight_start_after_reset:
  assumes inv: "global_inv s" and f: "flight s k i"
    and r: "initial_reset_completed (station (nodes s ! k))"
  shows "TRANSIENT_TIME \<le> tx_transmit_time (msg_at s k i)"
proof -
  from f have m: "nodes s ! k \<in> set (nodes s)" "msg_at s k i \<in> set (msgs (nodes s ! k))"
      "m_pc (msg_at s k i) = Tx_yield_timeout"
    by (simp_all add: flight_def msg_at_def)
  with global_inv_parts(1) [OF inv]
  have "sending_ok (now s) (station (nodes s ! k)) (msg_at s k i)"
      "0 \<le> busy_time (station (nodes s ! k))"
    by (simp_all add: node_inv_def busy_inv_def)
  with m(3) r show ?thesis by (simp add: sending_ok_def busy_bound_def)
qed

lemma clear_inv_step:
  assumes st: "step a s = Some (Inr s')" and inv: "global_inv s" and cl: "clear_inv s"
  shows "clear_inv s'"
proof (cases a rule: action_cases)
  case (Reg k0 b)
  with st have st': "step (At k0 b) s = Some (Inr s')" by simp
  from Reg(1) have "\<forall>k j. a \<noteq> At k (Tx_frame_end j)" using Reg(2) by auto
  from step_total_same [OF st this] have tot: "total_reset_busy s' = total_reset_busy s" .
  from st' have nw: "now s' = now s" by (elim step_AtE) simp
  show ?thesis
  proof (rule step_registers [OF st' Reg(2) global_inv_parts(1) [OF inv]])
    fix j ft
    assume r: "k0 < length (nodes s)" "j < length (msgs (nodes s ! k0))" "0 < ft"
    "chan s' = (chan s)\<lparr>objs := (objs (chan s))(next_obj (chan s) := create_frame (now s) ft),
          next_obj := Suc (next_obj (chan s)),
          frames_in_transmit := dict_set (frames_in_transmit (chan s)) (frame_id_of s k0 j) (next_obj (chan s))\<rparr>"
    "flight s' k0 j" "\<not> flight s k0 j" "frame_id_of s' k0 j = frame_id_of s k0 j"
    "tx_frame (msg_at s' k0 j) = next_obj (chan s)"
    "tx_transmit_time (msg_at s' k0 j) = now s" "m_wake (msg_at s' k0 j) = now s + ft"
    "\<forall>k i. flight s' k i \<and> (k, i) \<noteq> (k0, j) \<longrightarrow> flight s k i \<and> msg_at s' k i = msg_at s k i
        \<and> frame_id_of s' k i = frame_id_of s k i \<and> k \<noteq> k0"
    "no_frame_due s"
    have "total_reset_busy s + TRANSIENT_TIME \<le> max TRANSIENT_TIME (tx_transmit_time (msg_at s' k i))"
      if f: "flight s' k i" "\<not> retry (frame_of s' k i)" for k i
    proof (cases "(k, i) = (k0, j)")
      case True
      then have "tx_transmit_time (msg_at s' k i) = now s" using r(9) by simp
      with cl show ?thesis by (simp add: clear_inv_def)
    next
      case False
      with f(1) have "flight s' k i \<and> (k, i) \<noteq> (k0, j)" by simp
      from r(11) [rule_format, OF this]
      have old: "flight s k i" "msg_at s' k i = msg_at s k i" by simp_all
      note d = registry_invD [OF global_inv_parts(4) [OF inv] old(1)]
      from d(2) r(4) old(2) have "frame_of s' k i = frame_of s k i"
        by (simp add: frame_of_def)
      with f(2) old cl show ?thesis by (simp add: clear_inv_def)
    qed
    with cl tot nw show ?thesis by (simp add: clear_inv_def)
  qed
next
  case Other
  from step_total_same [OF st Other(2)] have tot: "total_reset_busy s' = total_reset_busy s" .
  from step_chan_same [OF st Other] have c: "chan s' = chan s" .
  have nw: "now s \<le> now s'" using st by (cases rule: stepE) simp_all
  have "total_reset_busy s + TRANSIENT_TIME \<le> max TRANSIENT_TIME (tx_transmit_time (msg_at s' k i))"
    if f: "flight s' k i" "\<not> retry (frame_of s' k i)" for k i
  proof -
    from Other(1) have nr: "\<forall>b. a = At k b \<longrightarrow> \<not> registers b" by blast
    from flight_before [OF st f(1) nr] have o: "flight s k i" "a \<noteq> At k (Tx_frame_end i)"
      by simp_all
    note keep = flight_keeps [OF st o]
    from f(2) keep(2) c have "\<not> retry (frame_of s k i)" by (simp add: frame_of_def)
    with o(1) cl keep(2) show ?thesis by (simp add: clear_inv_def)
  qed
  with cl tot nw show ?thesis by (auto simp: clear_inv_def)
next
  case (Check k0 j)
  with st have st': "step (At k0 (Tx_frame_end j)) s = Some (Inr s')" by simp
  note ch = step_check [OF st']
  note tot = step_total_check [OF st']
  from st' have nw: "now s' = now s" by (elim step_AtE) simp
  have before: "flight s k i \<and> (k, i) \<noteq> (k0, j) \<and> msg_at s' k i = msg_at s k i"
    if f: "flight s' k i" for k i
  proof -
    have nr: "\<forall>b. At k0 (Tx_frame_end j) = At k b \<longrightarrow> \<not> registers b" by simp
    from flight_before [OF st' f nr]
    have o: "flight s k i" "At k0 (Tx_frame_end j) \<noteq> At k (Tx_frame_end i)" by simp_all
    from flight_keeps(2) [OF st' o] o show ?thesis by auto
  qed
  show ?thesis
  proof (cases "retry (objs (chan s') (tx_frame (msg_at s k0 j)))")
    case True
    with tot have t: "total_reset_busy s' = total_reset_busy s" by simp
    have "total_reset_busy s + TRANSIENT_TIME \<le> max TRANSIENT_TIME (tx_transmit_time (msg_at s' k i))"
      if f: "flight s' k i" "\<not> retry (frame_of s' k i)" for k i
    proof -
      note b = before [OF f(1)]
      from b have fl: "flight s k i" by simp
      note d = registry_invD [OF global_inv_parts(4) [OF inv] fl]
      from step_objs(4) [OF st' inv d(2)] f(2) b have "\<not> retry (frame_of s k i)"
        by (auto simp: frame_of_def)
      with fl cl b show ?thesis by (simp add: clear_inv_def)
    qed
    with cl t nw show ?thesis by (simp add: clear_inv_def)
  next
    case False
    have none: "\<not> flight s' k i" for k i
    proof
      assume f: "flight s' k i"
      note b = before [OF f]
      from b have fl: "flight s k i" and ne: "(k0, j) \<noteq> (k, i)" by auto
      from flights_overlap [OF inv ch(1) fl]
      have "overlaps (frame_of s k0 j) (frame_of s k i)" .
      from check_flags_both(1) [OF st' inv fl ne this] False show False by simp
    qed
    have unfl: "\<not> retry (frame_of s k0 j)"
    proof
      assume "retry (frame_of s k0 j)"
      note d = registry_invD [OF global_inv_parts(4) [OF inv] ch(1)]
      from step_objs(4) [OF st' inv d(2)] \<open>retry (frame_of s k0 j)\<close> False show False
        by (simp add: frame_of_def)
    qed
    from cl ch(1) unfl
    have b1: "total_reset_busy s + TRANSIENT_TIME \<le> max TRANSIENT_TIME (tx_transmit_time (msg_at s k0 j))"
      by (simp add: clear_inv_def)
    note ft = flight_times [OF global_inv_parts(1) [OF inv] ch(1)]
    have "total_reset_busy s' + TRANSIENT_TIME \<le> max TRANSIENT_TIME (now s)"
    proof (cases "initial_reset_completed (station (nodes s ! k0))")
      case True
      from flight_start_after_reset [OF inv ch(1) True] b1 tot False True ft show ?thesis
        by simp
    next
      case nr: False
      with tot False cl show ?thesis by (simp add: clear_inv_def)
    qed
    with none nw show ?thesis by (simp add: clear_inv_def)
  qed
qed

lemma clear_inv_init: "clear_inv (sim_init c)"
proof -
  have "msgs nd = []" if "nd \<in> set (nodes (sim_init c))" for nd
    using that by (auto simp: sim_init_def node_init_def)
  then have "\<not> flight (sim_init c) k i" for k i
    by (auto simp: flight_def)
  moreover have "reset_busy nd = 0" if "nd \<in> set (nodes (sim_init c))" for nd
    using that by (auto simp: sim_init_def node_init_def reset_busy_def Station_init_def)
  then have "total_reset_busy (sim_init c) = 0"
    unfolding total_reset_busy_def by (intro sum_list_map_zero) simp
  ultimately show ?thesis by (simp add: clear_inv_def)
qed

lemma clear_inv_reachable:
  assumes "reachable_from c s"
  shows "clear_inv s"
proof -
  from assms obtain acts where acts: "exec acts (sim_init c) = Some (Inr s)"
    by (auto simp: reachable_from_def)
  have "global_inv s \<and> clear_inv s"
  proof (rule exec_invariant [OF acts, where P = "\<lambda>s. global_inv s \<and> clear_inv s"])
    show "global_inv (sim_init c) \<and> clear_inv (sim_init c)"
      using global_inv_init clear_inv_init by simp
  next
    fix a s s'
    assume "global_inv s \<and> clear_inv s" "step a s = Some (Inr s')"
    then show "global_inv s' \<and> clear_inv s'"
      using global_inv_step [of s a s'] clear_inv_step [of a s s'] by simp
  qed
  then show ?thesis by simp
qed

lemma totals_busy:
  "snd (snd (snd (snd (totals xs (a, b, c, d, e))))) = e + sum_list (map busy_time xs)"
  by (induction xs arbitrary: a b c d e) simp_all

lemma generate_report_reset:
  assumes "generate_report t x = Inr y"
  shows "initial_reset_completed y = initial_reset_completed x"
  using assms
  by (auto simp: generate_report_def float_div_def Let_def split: if_splits)

lemma sum_list_all2:
  fixes f :: "'a \<Rightarrow> int" and g :: "'b \<Rightarrow> int"
  assumes "list_all2 R xs ys" "\<And>x y. R x y \<Longrightarrow> y \<in> set ys \<Longrightarrow> f x = g y"
  shows "sum_list (map f xs) = sum_list (map g ys)"
  using assms
proof (induction xs ys rule: list_all2_induct)
  case Nil
  then show ?case by simp
next
  case (Cons x xs y ys)
  from Cons.prems [of x y] Cons.hyps(1) have "f x = g y" by simp
  moreover have "sum_list (map f xs) = sum_list (map g ys)"
    by (rule Cons.IH) (simp add: Cons.prems)
  ultimately show ?case by simp
qed

text \<open>
  C6, as the code has it. In every replication that runs to its end and is reported,
  the utilization of each station lies in \<open>[0, 1]\<close>; the system-wide utilization is not
  negative, and it is at most 1 if every station that has busy time has been reset.
\<close>

theorem utilization_bounds:
  assumes "replication acts (ms, c) = Some (Inr (((mean_transmit_times, mean_num_retries, channel_utilizations), c'), stations))"
  shows "(\<forall>x \<in> set stations. 0 \<le> U x \<and> U x \<le> 1)
         \<and> 0 \<le> last channel_utilizations
         \<and> ((\<forall>x \<in> set stations. initial_reset_completed x \<or> busy_time x = 0) \<longrightarrow>
              last channel_utilizations \<le> 1)"
proof -
  obtain m1 m2 m3 where ms: "ms = (m1, m2, m3)" by (cases ms)
  from assms ms obtain s where run: "env_run acts (sim_init c) = Some (Inr s)"
    and reps: "generate_reports (now s) (map station (nodes s)) = Inr stations"
    and single: "generate_report_single_replication m1 m2 m3 stations
        = Inr (mean_transmit_times, mean_num_retries, channel_utilizations)"
    by (auto simp: replication_def split: option.splits sum.splits)
  note fin = env_run_final [OF run]
  from node_inv_reachable [OF fin(1)] fin(2)
  have busy: "\<forall>nd \<in> set (nodes s). 0 \<le> busy_time (station nd) \<and> busy_time (station nd) \<le> STEADY_STATE_TIME"
    by (auto simp: node_inv_def dest: busy_time_final)
  from generate_reports_all2 [OF reps] fin(2)
  have all2: "list_all2 (\<lambda>x y. generate_report TERMINATE_TIME x = Inr y) (map station (nodes s)) stations"
    by simp
  have each: "0 \<le> busy_time y \<and> busy_time y \<le> STEADY_STATE_TIME \<and> 0 \<le> U y \<and> U y \<le> 1"
    if "y \<in> set stations" for y
  proof -
    from that obtain i where i: "i < length stations" "y = stations ! i"
      by (auto simp: in_set_conv_nth)
    from all2 i have len: "i < length (nodes s)"
      and rep: "generate_report TERMINATE_TIME (station (nodes s ! i)) = Inr y"
      by (auto simp: list_all2_conv_all_nth)
    define x where "x = station (nodes s ! i)"
    from len rep have x: "x \<in> set (map station (nodes s))"
        "generate_report TERMINATE_TIME x = Inr y"
      by (simp_all add: x_def)
    from x(1) busy have b: "0 \<le> busy_time x" "busy_time x \<le> STEADY_STATE_TIME" by auto
    from generate_report_busy [OF x(2)] unit_fraction [OF b] b show ?thesis by simp
  qed
  obtain a b c d e where t: "totals stations (0, 0, 0, 0, 0) = (a, b, c, d, e)"
    by (metis prod_cases5)
  from totals_busy [of stations 0 0 0 0 0] t have e: "e = sum_list (map busy_time stations)"
    by simp
  from totals_busy_nonneg [of stations 0 0 0 0 0] each t have e0: "0 \<le> e" by simp
  from single t have cu: "channel_utilizations = m3 @ [real_of_int e / real_of_int STEADY_STATE_TIME]"
    by (auto simp: generate_report_single_replication_def float_div_def Let_def
        split: sum.splits if_splits)
  with e0 have nonneg: "0 \<le> last channel_utilizations"
    by (simp add: STEADY_STATE_TIME_def TERMINATE_TIME_def TRANSIENT_TIME_def)
  have upper: "last channel_utilizations \<le> 1"
    if allreset: "\<forall>x \<in> set stations. initial_reset_completed x \<or> busy_time x = 0"
  proof -
    have "sum_list (map (\<lambda>x. if initial_reset_completed x then busy_time x else 0) (map station (nodes s)))
          = sum_list (map busy_time stations)"
    proof (rule sum_list_all2 [OF all2])
      fix x y
      assume r: "generate_report TERMINATE_TIME x = Inr y" and y: "y \<in> set stations"
      from generate_report_busy(1) [OF r] generate_report_reset [OF r] allreset y
      show "(if initial_reset_completed x then busy_time x else 0) = busy_time y"
        by auto
    qed
    moreover have "reset_busy = (\<lambda>nd. if initial_reset_completed (station nd)
        then busy_time (station nd) else 0)"
      by (rule ext) (simp add: reset_busy_def)
    ultimately have "total_reset_busy s = e"
      by (simp add: total_reset_busy_def e comp_def)
    with clear_inv_reachable [OF fin(1)] fin(2) have "e \<le> STEADY_STATE_TIME"
      by (simp add: clear_inv_def STEADY_STATE_TIME_def TERMINATE_TIME_def TRANSIENT_TIME_def)
    with e0 cu show ?thesis
      by (simp add: STEADY_STATE_TIME_def TERMINATE_TIME_def TRANSIENT_TIME_def)
  qed
  from each nonneg upper show ?thesis by blast
qed

theorem utilization_bounds_witness:
  "\<exists>r. replication ex_collision_acts (([], [], []), empty_channel) = Some (Inr r)
       \<and> (\<forall>x \<in> set (snd r). 0 \<le> U x \<and> U x \<le> 1)
       \<and> U (snd r ! 0) = 2 / 9975
       \<and> (\<forall>x \<in> set (snd r). initial_reset_completed x \<or> busy_time x = 0)
       \<and> 0 \<le> last (snd (snd (fst (fst r))))
       \<and> last (snd (snd (fst (fst r)))) \<le> 1"
proof -
  have "case replication ex_collision_acts (([], [], []), empty_channel) of
          Some (Inr r) \<Rightarrow> U (snd r ! 0) = 2 / 9975
            \<and> (\<forall>x \<in> set (snd r). initial_reset_completed x \<or> busy_time x = 0)
        | _ \<Rightarrow> False"
    by code_simp
  then obtain r where r: "replication ex_collision_acts (([], [], []), empty_channel) = Some (Inr r)"
    and p: "U (snd r ! 0) = 2 / 9975
            \<and> (\<forall>x \<in> set (snd r). initial_reset_completed x \<or> busy_time x = 0)"
    by (rule run_caseE)
  obtain m1 m2 m3 c' stations where r': "r = (((m1, m2, m3), c'), stations)"
    by (metis prod_cases3 surj_pair)
  from utilization_bounds [of ex_collision_acts "([], [], [])" empty_channel m1 m2 m3 c' stations]
    r r' p
  show ?thesis by auto
qed

subsection \<open>The order in which the registry is scanned\<close>

text \<open>
  \<open>keys()\<close> of a dictionary comes in no particular order. The collision check does not
  depend on it: two registries with the same entries give the same result.
\<close>

lemma set_all_retry_eq:
  "set_all_retry kvs h b = (if b \<in> snd ` set kvs then (h b)\<lparr>retry := True\<rparr> else h b)"
proof (induction kvs arbitrary: h)
  case Nil
  then show ?case by simp
next
  case (Cons x xs)
  obtain k a where x: "x = (k, a)" by (cases x)
  show ?case
    unfolding x set_all_retry.simps Cons.IH
    by (cases "b = a") auto
qed

lemma check_collision_order:
  assumes "set (frames_in_transmit c') = set (frames_in_transmit c)" "objs c' = objs c"
  shows "has_collision c' f fid = has_collision c f fid"
    "objs (check_collision c' f fid) = objs (check_collision c f fid)"
proof -
  from assms show hc: "has_collision c' f fid = has_collision c f fid"
    by (simp add: has_collision_iff)
  have "set_all_retry (frames_in_transmit c') (objs c) = set_all_retry (frames_in_transmit c) (objs c)"
    by (rule ext) (simp add: set_all_retry_eq assms(1))
  with hc assms(2) show "objs (check_collision c' f fid) = objs (check_collision c f fid)"
    by (simp add: check_collision_def)
qed

subsection \<open>The grant of the server, the resets and the count of initial transmissions\<close>

lemma all_nth_update:
  assumes "\<forall>j < length xs. P (xs ! j)" "P y"
  shows "\<forall>j < length (xs[i := y]). P ((xs[i := y]) ! j)"
proof (cases "i < length xs")
  case True
  with assms show ?thesis by (simp add: nth_list_update)
next
  case False
  with assms show ?thesis by simp
qed

lemma length_filter_update:
  "i < length xs \<Longrightarrow>
   int (length (filter P (xs[i := y]))) =
     int (length (filter P xs)) - (if P (xs ! i) then 1 else 0) + (if P y then 1 else 0)"
proof (induction xs arbitrary: i)
  case Nil
  then show ?case by simp
next
  case (Cons x xs)
  show ?case
  proof (cases i)
    case 0
    then show ?thesis by simp
  next
    case (Suc k)
    with Cons.prems have "k < length xs" by simp
    from Cons.IH [OF this] Suc show ?thesis by (auto split: if_splits)
  qed
qed

lemma grant_inv_nth:
  "grant_inv t nd \<Longrightarrow> i < length (msgs nd) \<Longrightarrow> grant_ok t (h_resets nd) (msgs nd ! i)"
  by (simp add: grant_inv_def)

lemma grant_inv_update:
  assumes "grant_inv t nd" "grant_ok t (h_resets nd) m"
  shows "grant_inv t (nd\<lparr>msgs := (msgs nd)[i := m]\<rparr>)"
  using assms all_nth_update [of "msgs nd" "grant_ok t (h_resets nd)" m i]
  by (simp add: grant_inv_def)

lemma grant_inv_step:
  assumes "node_step a t c nd = Some (Inr (c', nd'))" and inv: "grant_inv t nd"
    and srv: "server_inv nd" and hist: "history_inv nd"
  shows "grant_inv t nd'"
  using assms(1)
proof (cases rule: node_stepE)
  case (Arrive_start R)
  with inv show ?thesis by (simp add: grant_inv_def)
next
  case (Arrive_fire R)
  with inv show ?thesis
    by (simp add: grant_inv_def nth_append grant_ok_def msg_init_def active_pc_def)
next
  case (Wfs_start i)
  from grant_inv_nth [OF inv Wfs_start(3)] Wfs_start(4)
  have "grant_ok t (h_resets nd) ((msgs nd ! i)\<lparr>m_pc := Wfs_yield_req\<rparr>)"
    by (simp add: grant_ok_def active_pc_def)
  from grant_inv_update [OF inv this, of i] Wfs_start show ?thesis
    by (simp add: grant_inv_def)
next
  case (Wfs_granted i x rest)
  from inv have "grant_ok t (h_resets nd) ((msgs nd ! i)\<lparr>m_pc := Tx_created, wfs_transmit_time := t\<rparr>)"
    by (simp add: grant_ok_def grant_inv_def)
  from grant_inv_update [OF inv this, of i] Wfs_granted show ?thesis
    by (simp add: grant_inv_def)
next
  case (Tx_start i Rs ft)
  from grant_inv_nth [OF inv Tx_start(2)] Tx_start(3) generate_frame_time_pos [OF Tx_start(4)]
  have "grant_ok t (h_resets nd) ((msgs nd ! i)\<lparr>tx_frame_time := ft,
                   h_frame_draws := Suc (h_frame_draws (msgs nd ! i)),
                   h_initial_counts := Suc (h_initial_counts (msgs nd ! i)),
                   m_pc := Tx_yield_timeout, tx_frame := next_obj c, tx_transmit_time := t,
                   m_wake := t + ft,
                   h_attempts := h_attempts (msgs nd ! i) @ [ft]\<rparr>)"
    by (simp add: grant_ok_def active_pc_def)
  from grant_inv_update [OF inv this, of i] Tx_start show ?thesis
    by (simp add: grant_inv_def)
next
  case (Tx_collided i x)
  from grant_inv_nth [OF inv Tx_collided(2)] Tx_collided(3)
  have "grant_ok t (h_resets nd) ((msgs nd ! i)\<lparr>m_pc := Wait_created\<rparr>)"
    by (simp add: grant_ok_def active_pc_def)
  from grant_inv_update [OF inv this, of i] Tx_collided show ?thesis
    by (simp add: grant_inv_def)
next
  case (Tx_success i x)
  from grant_inv_nth [OF inv Tx_success(2)] Tx_success(3,4)
  have "grant_ok t (h_resets nd) ((msgs nd ! i)\<lparr>m_pc := Tx_done\<rparr>)"
    by (simp add: grant_ok_def active_pc_def)
  from grant_inv_update [OF inv this, of i] Tx_success show ?thesis
    by (simp add: grant_inv_def)
next
  case (Wait_start i R)
  from grant_inv_nth [OF inv Wait_start(3)] Wait_start(4)
  have "grant_ok t (h_resets nd) ((msgs nd ! i)\<lparr>m_pc := Wait_yield_timeout, m_wake := t + R\<rparr>)"
    by (simp add: grant_ok_def active_pc_def)
  from grant_inv_update [OF inv this, of i] Wait_start show ?thesis
    by (simp add: grant_inv_def)
next
  case (Wait_end i)
  from grant_inv_nth [OF inv Wait_end(3)] Wait_end(4)
  have "grant_ok t (h_resets nd) ((msgs nd ! i)\<lparr>m_pc := Wait_done\<rparr>)"
    by (simp add: grant_ok_def active_pc_def)
  from grant_inv_update [OF inv this, of i] Wait_end show ?thesis
    by (simp add: grant_inv_def)
next
  case (Tx_retry i)
  from history_inv_nth [OF hist Tx_retry(2)] Tx_retry(3)
  have "0 < tx_frame_time (msgs nd ! i)"
    by (simp add: msg_history_ok_def before_tx_def)
  with grant_inv_nth [OF inv Tx_retry(2)] Tx_retry(3)
  have "grant_ok t (h_resets nd) ((msgs nd ! i)\<lparr>m_pc := Tx_yield_timeout, tx_frame := next_obj c,
                   tx_transmit_time := t, m_wake := t + tx_frame_time (msgs nd ! i),
                   h_attempts := h_attempts (msgs nd ! i) @ [tx_frame_time (msgs nd ! i)]\<rparr>)"
    by (simp add: grant_ok_def active_pc_def)
  from grant_inv_update [OF inv this, of i] Tx_retry show ?thesis
    by (simp add: grant_inv_def)
next
  case (Wfs_finish i)
  from grant_inv_nth [OF inv Wfs_finish(3)] Wfs_finish(4)
  have "grant_ok t (h_resets nd) ((msgs nd ! i)\<lparr>m_pc := Wfs_done\<rparr>)"
    by (simp add: grant_ok_def active_pc_def)
  from grant_inv_update [OF inv this, of i] Wfs_finish show ?thesis
    by (simp add: grant_inv_def)
next
  case (Wfs_finish_reset i)
  let ?m = "(msgs nd ! i)\<lparr>m_pc := Wfs_done\<rparr>"
  from Wfs_finish_reset(3,4) srv have us: "users (server (station nd)) = [i]"
    using srv_ok_holder [of "users (server (station nd))" "map m_pc (msgs nd)" i]
    by (simp add: server_inv_def active_pc_def)
  have "grant_ok t (h_resets nd @ [t]) (((msgs nd)[i := ?m]) ! j)" if j: "j < length (msgs nd)" for j
  proof (cases "j = i")
    case True
    with grant_inv_nth [OF inv Wfs_finish_reset(3)] Wfs_finish_reset(3,4) show ?thesis
      by (simp add: grant_ok_def active_pc_def)
  next
    case False
    with srv us j have "\<not> active_pc (m_pc (msgs nd ! j))"
      unfolding server_inv_def
      using srv_ok_others [of "users (server (station nd))" "map m_pc (msgs nd)" i j] by simp
    with grant_inv_nth [OF inv j] False show ?thesis
      by (auto simp: grant_ok_def active_pc_def)
  qed
  with inv Wfs_finish_reset show ?thesis
    by (simp add: grant_inv_def)
next
  case Release
  with inv show ?thesis by (simp add: grant_inv_def)
qed

lemma grant_inv_advance:
  "grant_inv t nd \<Longrightarrow> t < t' \<Longrightarrow> grant_inv t' nd"
  by (fastforce simp: grant_inv_def grant_ok_def)

lemma count_same:
  assumes "i < length xs" "P y = P (xs ! i)"
  shows "int (length (filter P (xs[i := y]))) = int (length (filter P xs))"
  using length_filter_update [OF assms(1), of P y] assms(2) by simp

lemma counted_msg_pc:
  assumes "\<not> before_tx (m_pc m)" "\<not> before_tx p"
  shows "counted_msg rs (m\<lparr>m_pc := p\<rparr>) = counted_msg rs m"
  using assms by (simp add: counted_msg_def)

lemma tally_inv_step:
  assumes "node_step a t c nd = Some (Inr (c', nd'))" and inv: "tally_inv nd"
    and gr: "grant_inv t nd" and srv: "server_inv nd"
  shows "tally_inv nd'"
  using assms(1)
proof (cases rule: node_stepE)
  case (Arrive_start R)
  with inv show ?thesis by (simp add: tally_inv_def)
next
  case (Arrive_fire R)
  with inv show ?thesis
    by (simp add: tally_inv_def counted_msg_def msg_init_def before_tx_def)
next
  case (Wfs_start i)
  from Wfs_start(4)
  have "counted_msg (h_resets nd) ((msgs nd ! i)\<lparr>m_pc := Wfs_yield_req\<rparr>)
          = counted_msg (h_resets nd) (msgs nd ! i)"
    by (simp add: counted_msg_def before_tx_def)
  from count_same [OF Wfs_start(3) this] inv Wfs_start show ?thesis
    by (simp add: tally_inv_def)
next
  case (Wfs_granted i x rest)
  from Wfs_granted(4)
  have "counted_msg (h_resets nd) ((msgs nd ! i)\<lparr>m_pc := Tx_created, wfs_transmit_time := t\<rparr>)
          = counted_msg (h_resets nd) (msgs nd ! i)"
    by (simp add: counted_msg_def before_tx_def)
  from count_same [OF Wfs_granted(3) this] inv Wfs_granted show ?thesis
    by (simp add: tally_inv_def)
next
  case (Tx_start i Rs ft)
  let ?m = "(msgs nd ! i)\<lparr>tx_frame_time := ft,
                   h_frame_draws := Suc (h_frame_draws (msgs nd ! i)),
                   h_initial_counts := Suc (h_initial_counts (msgs nd ! i)),
                   m_pc := Tx_yield_timeout, tx_frame := next_obj c, tx_transmit_time := t,
                   m_wake := t + ft,
                   h_attempts := h_attempts (msgs nd ! i) @ [ft]\<rparr>"
  from Tx_start(3) have old: "\<not> counted_msg (h_resets nd) (msgs nd ! i)"
    by (simp add: counted_msg_def before_tx_def)
  from grant_inv_nth [OF gr Tx_start(2)] Tx_start(3)
  have new: "counted_msg (h_resets nd) ?m"
    by (simp add: counted_msg_def before_tx_def grant_ok_def active_pc_def)
  from length_filter_update [OF Tx_start(2), of "counted_msg (h_resets nd)" ?m] old new
  have "int (length (filter (counted_msg (h_resets nd)) ((msgs nd)[i := ?m])))
          = int (length (filter (counted_msg (h_resets nd)) (msgs nd))) + 1"
    by simp
  with inv Tx_start show ?thesis
    by (simp add: tally_inv_def)
next
  case (Tx_collided i x)
  from Tx_collided(3)
  have "counted_msg (h_resets nd) ((msgs nd ! i)\<lparr>m_pc := Wait_created\<rparr>)
          = counted_msg (h_resets nd) (msgs nd ! i)"
    by (simp add: counted_msg_def before_tx_def)
  from count_same [OF Tx_collided(2) this] inv Tx_collided show ?thesis
    by (simp add: tally_inv_def)
next
  case (Tx_success i x)
  from Tx_success(3)
  have "counted_msg (h_resets nd) ((msgs nd ! i)\<lparr>m_pc := Tx_done\<rparr>)
          = counted_msg (h_resets nd) (msgs nd ! i)"
    by (simp add: counted_msg_def before_tx_def)
  from count_same [OF Tx_success(2) this] inv Tx_success show ?thesis
    by (simp add: tally_inv_def)
next
  case (Wait_start i R)
  from Wait_start(4)
  have "counted_msg (h_resets nd) ((msgs nd ! i)\<lparr>m_pc := Wait_yield_timeout, m_wake := t + R\<rparr>)
          = counted_msg (h_resets nd) (msgs nd ! i)"
    by (simp add: counted_msg_def before_tx_def)
  from count_same [OF Wait_start(3) this] inv Wait_start show ?thesis
    by (simp add: tally_inv_def)
next
  case (Wait_end i)
  from Wait_end(4)
  have "counted_msg (h_resets nd) ((msgs nd ! i)\<lparr>m_pc := Wait_done\<rparr>)
          = counted_msg (h_resets nd) (msgs nd ! i)"
    by (simp add: counted_msg_def before_tx_def)
  from count_same [OF Wait_end(3) this] inv Wait_end show ?thesis
    by (simp add: tally_inv_def)
next
  case (Tx_retry i)
  from Tx_retry(3)
  have "counted_msg (h_resets nd) ((msgs nd ! i)\<lparr>m_pc := Tx_yield_timeout, tx_frame := next_obj c,
                   tx_transmit_time := t, m_wake := t + tx_frame_time (msgs nd ! i),
                   h_attempts := h_attempts (msgs nd ! i) @ [tx_frame_time (msgs nd ! i)]\<rparr>)
          = counted_msg (h_resets nd) (msgs nd ! i)"
    by (simp add: counted_msg_def before_tx_def)
  from count_same [OF Tx_retry(2) this] inv Tx_retry show ?thesis
    by (simp add: tally_inv_def)
next
  case (Wfs_finish i)
  from Wfs_finish(4)
  have "counted_msg (h_resets nd) ((msgs nd ! i)\<lparr>m_pc := Wfs_done\<rparr>)
          = counted_msg (h_resets nd) (msgs nd ! i)"
    by (simp add: counted_msg_def before_tx_def)
  from count_same [OF Wfs_finish(3) this] inv Wfs_finish show ?thesis
    by (simp add: tally_inv_def)
next
  case (Wfs_finish_reset i)
  let ?m = "(msgs nd ! i)\<lparr>m_pc := Wfs_done\<rparr>"
  from Wfs_finish_reset(3,4) srv have us: "users (server (station nd)) = [i]"
    using srv_ok_holder [of "users (server (station nd))" "map m_pc (msgs nd)" i]
    by (simp add: server_inv_def active_pc_def)
  have no: "\<not> counted_msg (h_resets nd @ [t]) (((msgs nd)[i := ?m]) ! j)"
    if j: "j < length (msgs nd)" for j
  proof (cases "j = i")
    case True
    with grant_inv_nth [OF gr Wfs_finish_reset(3)] Wfs_finish_reset(3,4) show ?thesis
      by (simp add: grant_ok_def counted_msg_def)
  next
    case False
    with srv us j have na: "\<not> active_pc (m_pc (msgs nd ! j))"
      unfolding server_inv_def
      using srv_ok_others [of "users (server (station nd))" "map m_pc (msgs nd)" i j] by simp
    show ?thesis
    proof (cases "m_pc (msgs nd ! j) = Wfs_done")
      case True
      with grant_inv_nth [OF gr j] False show ?thesis
        by (simp add: grant_ok_def counted_msg_def)
    next
      case nd: False
      with na have "before_tx (m_pc (msgs nd ! j))"
        by (cases "m_pc (msgs nd ! j)") (simp_all add: active_pc_def before_tx_def)
      with False show ?thesis by (simp add: counted_msg_def)
    qed
  qed
  have "filter (counted_msg (h_resets nd @ [t])) ((msgs nd)[i := ?m]) = []"
    unfolding filter_empty_conv
  proof
    fix x assume "x \<in> set ((msgs nd)[i := ?m])"
    then obtain j where "j < length (msgs nd)" "x = ((msgs nd)[i := ?m]) ! j"
      by (auto simp: in_set_conv_nth)
    with no show "\<not> counted_msg (h_resets nd @ [t]) x" by simp
  qed
  with Wfs_finish_reset show ?thesis
    by (simp add: tally_inv_def)
next
  case Release
  with inv show ?thesis by (simp add: tally_inv_def)
qed

lemma full_inv_step:
  assumes "full_inv t nd" "t < TERMINATE_TIME" "node_step b t c nd = Some (Inr (c', nd'))"
  shows "full_inv t nd'"
proof -
  from assms(1) have parts: "node_inv t nd" "reset_inv t nd" "grant_inv t nd" "tally_inv nd"
    "server_inv nd" "history_inv nd"
    by (simp_all add: full_inv_def node_inv_def)
  from node_inv_step [OF parts(1) assms(2,3)] have "node_inv t nd'" .
  moreover from reset_inv_step [OF assms(3) parts(2)] have "reset_inv t nd'" .
  moreover from grant_inv_step [OF assms(3) parts(3,5,6)] have "grant_inv t nd'" .
  moreover from tally_inv_step [OF assms(3) parts(4,3,5)] have "tally_inv nd'" .
  ultimately show ?thesis by (simp add: full_inv_def)
qed

lemma full_inv_advance:
  assumes "full_inv t nd" "t < t'" "t' \<le> TERMINATE_TIME" "node_idle_until t' nd"
  shows "full_inv t' nd"
  using assms node_inv_advance [of t nd t'] reset_inv_advance [of t nd t']
    grant_inv_advance [of t nd t']
  by (simp add: full_inv_def)

lemma full_inv_reachable:
  assumes "reachable_from c s"
  shows "\<forall>nd \<in> set (nodes s). full_inv (now s) nd"
proof (rule timed_invariant_reachable [where I = full_inv, OF assms])
  show "\<forall>nd \<in> set (nodes (sim_init c)). full_inv 0 nd"
    by (simp add: sim_init_def node_init_def full_inv_def node_inv_def server_inv_def srv_ok_def
        history_inv_def busy_inv_def any_sending_def busy_bound_def Station_init_def
        TRANSIENT_TIME_def reset_inv_def grant_inv_def tally_inv_def)
qed (auto intro: full_inv_step full_inv_advance)

subsection \<open>What one step does to the counters of a station\<close>

lemma completes_At: "completes k (At j b) \<longleftrightarrow> j = k \<and> (\<exists>i. b = Wfs_finish i)"
  by (cases b) auto


lemma node_step_resets:
  assumes "node_step b t c nd = Some (Inr (c', nd'))"
  shows "if (\<exists>i. b = Wfs_finish i) \<and> TRANSIENT_TIME \<le> t \<and> \<not> initial_reset_completed (station nd)
         then h_resets nd' = h_resets nd @ [t] \<and> counters_zero (station nd')
              \<and> initial_reset_completed (station nd')
         else h_resets nd' = h_resets nd
              \<and> (initial_reset_completed (station nd') \<longleftrightarrow> initial_reset_completed (station nd))"
  using assms by (cases rule: node_stepE) (auto simp: counters_zero_def)


lemma node_step_counters:
  assumes "node_step b t c nd = Some (Inr (c', nd'))" and inv: "full_inv t nd"
    and no: "\<not> ((\<exists>i. b = Wfs_finish i) \<and> TRANSIENT_TIME \<le> t \<and> \<not> initial_reset_completed (station nd))"
  shows "counters_le (station nd) (station nd')"
  using assms(1)
proof (cases rule: node_stepE)
  case (Tx_success i x)
  from inv Tx_success(2) have "sending_ok t (station nd) (msgs nd ! i)"
    by (simp add: full_inv_def node_inv_def busy_inv_def)
  with Tx_success show ?thesis
    by (simp add: sending_ok_def counters_le_def)
next
  case (Wfs_finish i)
  from inv Wfs_finish(3) have "grant_ok t (h_resets nd) (msgs nd ! i)"
    by (simp add: full_inv_def grant_inv_def)
  with Wfs_finish show ?thesis
    by (simp add: grant_ok_def counters_le_def)
next
  case (Wfs_finish_reset i)
  with no show ?thesis by simp
qed (simp_all add: counters_le_def)

lemma exec_nodes_length:
  assumes "exec acts s = Some (Inr s')"
  shows "length (nodes s') = length (nodes s)"
  using assms
proof (induction acts arbitrary: s)
  case Nil
  then show ?case by simp
next
  case (Cons a acts)
  from Cons.prems obtain s1 where s1: "step a s = Some (Inr s1)" "exec acts s1 = Some (Inr s')"
    by (auto split: option.splits sum.splits)
  from Cons.IH [OF s1(2)] step_nodes_length [OF s1(1)] show ?case by simp
qed

lemma step_resets:
  assumes "step a s = Some (Inr s')" "k < length (nodes s)"
  shows "if resets_at k a s
         then h_resets (nodes s' ! k) = h_resets (nodes s ! k) @ [now s]
              \<and> counters_zero (station (nodes s' ! k))
              \<and> initial_reset_completed (station (nodes s' ! k))
         else h_resets (nodes s' ! k) = h_resets (nodes s ! k)
              \<and> (initial_reset_completed (station (nodes s' ! k))
                   \<longleftrightarrow> initial_reset_completed (station (nodes s ! k)))"
  using assms(1)
proof (cases rule: stepE)
  case (Advance t)
  then show ?thesis by (simp add: resets_at_def)
next
  case (At j b c nd)
  show ?thesis
  proof (cases "j = k")
    case True
    with At assms(2) have n: "nodes s' ! k = nd" by simp
    from node_step_resets [OF At(4)] True At(1) show ?thesis
      by (simp add: n resets_at_def completes_At)
  next
    case False
    with At assms(2) have "nodes s' ! k = nodes s ! k" by simp
    with False At(1) show ?thesis by (simp add: resets_at_def completes_At)
  qed
qed


lemma step_counters:
  assumes "step a s = Some (Inr s')" "k < length (nodes s)"
    and inv: "\<forall>nd \<in> set (nodes s). full_inv (now s) nd" and no: "\<not> resets_at k a s"
  shows "counters_le (station (nodes s ! k)) (station (nodes s' ! k))"
  using assms(1)
proof (cases rule: stepE)
  case (Advance t)
  then show ?thesis by (simp add: counters_le_def)
next
  case (At j b c nd)
  show ?thesis
  proof (cases "j = k")
    case True
    with At assms(2) have n: "nodes s' ! k = nd" by simp
    from inv assms(2) have "full_inv (now s) (nodes s ! k)" by simp
    from node_step_counters [OF At(4) [unfolded True] this] no True At(1) show ?thesis
      by (simp add: n resets_at_def completes_At)
  next
    case False
    with At assms(2) have "nodes s' ! k = nodes s ! k" by simp
    then show ?thesis by (simp add: counters_le_def)
  qed
qed

lemma resets_run:
  assumes "exec acts s0 = Some (Inr s)" "k < length (nodes s0)"
    and "initial_reset_completed (station (nodes s0 ! k)) \<longleftrightarrow> h_resets (nodes s0 ! k) \<noteq> []"
  shows "h_resets (nodes s ! k) =
           (if h_resets (nodes s0 ! k) = []
            then take 1 (filter (\<lambda>t. TRANSIENT_TIME \<le> t) (completion_times k acts s0))
            else h_resets (nodes s0 ! k))
         \<and> (initial_reset_completed (station (nodes s ! k)) \<longleftrightarrow> h_resets (nodes s ! k) \<noteq> [])"
  using assms
proof (induction acts arbitrary: s0)
  case Nil
  then show ?case by simp
next
  case (Cons a acts)
  from Cons.prems(1) obtain s1 where s1: "step a s0 = Some (Inr s1)" "exec acts s1 = Some (Inr s)"
    by (auto split: option.splits sum.splits)
  from step_nodes_length [OF s1(1)] Cons.prems(2) have k1: "k < length (nodes s1)" by simp
  note eff = step_resets [OF s1(1) Cons.prems(2)]
  from s1(1) have ct: "completion_times k (a # acts) s0
      = (if completes k a then [now s0] else []) @ completion_times k acts s1"
    by simp
  show ?case
  proof (cases "resets_at k a s0")
    case True
    with eff have h1: "h_resets (nodes s1 ! k) = h_resets (nodes s0 ! k) @ [now s0]"
        "initial_reset_completed (station (nodes s1 ! k))"
      by simp_all
    from True Cons.prems(3) have h0: "h_resets (nodes s0 ! k) = []" "completes k a"
        "TRANSIENT_TIME \<le> now s0"
      by (simp_all add: resets_at_def)
    from h1 have "initial_reset_completed (station (nodes s1 ! k)) \<longleftrightarrow> h_resets (nodes s1 ! k) \<noteq> []"
      by simp
    from Cons.IH [OF s1(2) k1 this] h1 h0 show ?thesis
      unfolding ct by simp
  next
    case False
    with eff have h1: "h_resets (nodes s1 ! k) = h_resets (nodes s0 ! k)"
        "initial_reset_completed (station (nodes s1 ! k))
           \<longleftrightarrow> initial_reset_completed (station (nodes s0 ! k))"
      by simp_all
    with Cons.prems(3)
    have "initial_reset_completed (station (nodes s1 ! k)) \<longleftrightarrow> h_resets (nodes s1 ! k) \<noteq> []"
      by simp
    note ih = Cons.IH [OF s1(2) k1 this]
    show ?thesis
    proof (cases "h_resets (nodes s0 ! k) = []")
      case True
      with Cons.prems(3) False have "\<not> (completes k a \<and> TRANSIENT_TIME \<le> now s0)"
        by (simp add: resets_at_def)
      with ih h1 True show ?thesis
        unfolding ct by auto
    next
      case False
      with ih h1 show ?thesis by simp
    qed
  qed
qed

subsection \<open>One frame time and one count for each message\<close>



subsection \<open>The reset of the counters\<close>

text \<open>
  C7, as the code has it. The counters of a station are zeroed by the return of
  \<open>wait_for_service\<close> for the first of its messages that completes at or after
  \<open>TRANSIENT_TIME\<close>, and by nothing else. In every state a replication reaches, for
  every station:

  \<^item> the resets so far are the first completion of a message of the station at or after
    \<open>TRANSIENT_TIME\<close>, if there was one, and none otherwise: so at most one, exactly one
    once a message has completed at or after \<open>TRANSIENT_TIME\<close>, never one before
    \<open>TRANSIENT_TIME\<close>, and \<open>initial_reset_completed\<close> tells whether there was one;
  \<^item> a step that completes a message of the station at or after \<open>TRANSIENT_TIME\<close>, the
    station not having been reset, leaves \<open>nt\<close>, \<open>st\<close>, \<open>num_retries\<close>,
    \<open>num_initial_transmits\<close> and \<open>busy_time\<close> zero and sets \<open>initial_reset_completed\<close>;
  \<^item> every other step is no reset: none of the five counters gets smaller, and
    \<open>initial_reset_completed\<close> is as before.
\<close>

theorem reset_at_first_late_completion:
  assumes "exec acts (sim_init c) = Some (Inr s)" "k < length (nodes s)"
  shows "h_resets (nodes s ! k) =
           take 1 (filter (\<lambda>t. TRANSIENT_TIME \<le> t) (completion_times k acts (sim_init c)))
         \<and> length (h_resets (nodes s ! k)) \<le> 1
         \<and> (\<forall>r \<in> set (h_resets (nodes s ! k)). TRANSIENT_TIME \<le> r \<and> r \<le> now s)
         \<and> (initial_reset_completed (station (nodes s ! k)) \<longleftrightarrow> length (h_resets (nodes s ! k)) = 1)
         \<and> (\<forall>a s'. step a s = Some (Inr s') \<longrightarrow>
              (if resets_at k a s
               then h_resets (nodes s' ! k) = h_resets (nodes s ! k) @ [now s]
                    \<and> counters_zero (station (nodes s' ! k))
                    \<and> initial_reset_completed (station (nodes s' ! k))
               else h_resets (nodes s' ! k) = h_resets (nodes s ! k)
                    \<and> counters_le (station (nodes s ! k)) (station (nodes s' ! k))
                    \<and> (initial_reset_completed (station (nodes s' ! k))
                         \<longleftrightarrow> initial_reset_completed (station (nodes s ! k)))))"
proof -
  from assms(1) have r: "reachable_from c s"
    by (auto simp: reachable_from_def)
  from exec_nodes_length [OF assms(1)]
  have "length (nodes s) = length (nodes (sim_init c))" .
  with assms(2) have k0: "k < length (nodes (sim_init c))" by simp
  then have "k < NUM_STATIONS" by (simp add: sim_init_def)
  then have init: "initial_reset_completed (station (nodes (sim_init c) ! k))
      \<longleftrightarrow> h_resets (nodes (sim_init c) ! k) \<noteq> []"
      "h_resets (nodes (sim_init c) ! k) = []"
    by (simp_all add: sim_init_def node_init_def Station_init_def)
  from resets_run [OF assms(1) k0 init(1)] init(2)
  have run: "h_resets (nodes s ! k) =
           take 1 (filter (\<lambda>t. TRANSIENT_TIME \<le> t) (completion_times k acts (sim_init c)))"
      "initial_reset_completed (station (nodes s ! k)) \<longleftrightarrow> h_resets (nodes s ! k) \<noteq> []"
    by simp_all
  from full_inv_reachable [OF r] have inv: "\<forall>nd \<in> set (nodes s). full_inv (now s) nd" .
  with assms(2) have "reset_inv (now s) (nodes s ! k)"
    by (simp add: full_inv_def)
  then have rs: "length (h_resets (nodes s ! k)) \<le> 1"
      "\<forall>r \<in> set (h_resets (nodes s ! k)). TRANSIENT_TIME \<le> r \<and> r \<le> now s"
    by (simp_all add: reset_inv_def)
  from rs(1) run(2)
  have flag: "initial_reset_completed (station (nodes s ! k)) \<longleftrightarrow> length (h_resets (nodes s ! k)) = 1"
    by (cases "h_resets (nodes s ! k)") simp_all
  have st: "if resets_at k a s
               then h_resets (nodes s' ! k) = h_resets (nodes s ! k) @ [now s]
                    \<and> counters_zero (station (nodes s' ! k))
                    \<and> initial_reset_completed (station (nodes s' ! k))
               else h_resets (nodes s' ! k) = h_resets (nodes s ! k)
                    \<and> counters_le (station (nodes s ! k)) (station (nodes s' ! k))
                    \<and> (initial_reset_completed (station (nodes s' ! k))
                         \<longleftrightarrow> initial_reset_completed (station (nodes s ! k)))"
    if a: "step a s = Some (Inr s')" for a s'
    using step_resets [OF a assms(2)] step_counters [OF a assms(2) inv]
    by (cases "resets_at k a s") simp_all
  have steps: "\<forall>a s'. step a s = Some (Inr s') \<longrightarrow>
              (if resets_at k a s
               then h_resets (nodes s' ! k) = h_resets (nodes s ! k) @ [now s]
                    \<and> counters_zero (station (nodes s' ! k))
                    \<and> initial_reset_completed (station (nodes s' ! k))
               else h_resets (nodes s' ! k) = h_resets (nodes s ! k)
                    \<and> counters_le (station (nodes s ! k)) (station (nodes s' ! k))
                    \<and> (initial_reset_completed (station (nodes s' ! k))
                         \<longleftrightarrow> initial_reset_completed (station (nodes s ! k))))"
    by (intro allI impI) (rule st)
  note run(1)
  moreover note rs(1)
  moreover note rs(2)
  moreover note flag
  moreover note steps
  ultimately show ?thesis by (intro conjI)
qed

theorem reset_at_first_late_completion_witness:
  "(\<exists>s s'. exec ex_reset_head (sim_init empty_channel) = Some (Inr s)
       \<and> step (At 0 (Wfs_finish 0)) s = Some (Inr s')
       \<and> completion_times 0 ex_reset_head (sim_init empty_channel) = []
       \<and> h_resets (nodes s ! 0) = []
       \<and> \<not> initial_reset_completed (station (nodes s ! 0))
       \<and> num_initial_transmits (station (nodes s ! 0)) = 1
       \<and> num_retries (station (nodes s ! 0)) = 1
       \<and> busy_time (station (nodes s ! 0)) = 3
       \<and> resets_at 0 (At 0 (Wfs_finish 0)) s
       \<and> h_resets (nodes s' ! 0) = [36]
       \<and> counters_zero (station (nodes s' ! 0))
       \<and> initial_reset_completed (station (nodes s' ! 0)))
   \<and> (\<exists>s. exec ex_collision_acts (sim_init empty_channel) = Some (Inr s)
       \<and> completion_times 0 ex_collision_acts (sim_init empty_channel) = [36, 42]
       \<and> h_resets (nodes s ! 0) = [36]
       \<and> initial_reset_completed (station (nodes s ! 0)))"
proof -
  have "case exec ex_reset_head (sim_init empty_channel) of
          Some (Inr s) \<Rightarrow>
            length (nodes s) = 8 \<and> now s = 36
            \<and> completion_times 0 ex_reset_head (sim_init empty_channel) = []
            \<and> num_initial_transmits (station (nodes s ! 0)) = 1
            \<and> num_retries (station (nodes s ! 0)) = 1
            \<and> busy_time (station (nodes s ! 0)) = 3
            \<and> resets_at 0 (At 0 (Wfs_finish 0)) s
            \<and> (case step (At 0 (Wfs_finish 0)) s of Some (Inr s') \<Rightarrow> True | _ \<Rightarrow> False)
        | _ \<Rightarrow> False"
    by code_simp
  then obtain s where s: "exec ex_reset_head (sim_init empty_channel) = Some (Inr s)"
      "length (nodes s) = 8 \<and> now s = 36
            \<and> completion_times 0 ex_reset_head (sim_init empty_channel) = []
            \<and> num_initial_transmits (station (nodes s ! 0)) = 1
            \<and> num_retries (station (nodes s ! 0)) = 1
            \<and> busy_time (station (nodes s ! 0)) = 3
            \<and> resets_at 0 (At 0 (Wfs_finish 0)) s
            \<and> (case step (At 0 (Wfs_finish 0)) s of Some (Inr s') \<Rightarrow> True | _ \<Rightarrow> False)"
    by (rule run_caseE)
  from s(2) obtain s' where s': "step (At 0 (Wfs_finish 0)) s = Some (Inr s')"
    by (elim conjE run_caseE)
  from s(2) have k: "0 < length (nodes s)" by simp
  note main = reset_at_first_late_completion [OF s(1) k]
  note q1 = main [THEN conjunct1]
  note q4 = main [THEN conjunct2, THEN conjunct2, THEN conjunct2, THEN conjunct1]
  note q5 = main [THEN conjunct2, THEN conjunct2, THEN conjunct2, THEN conjunct2,
      THEN spec, THEN spec, THEN mp, OF s'(1)]
  from q1 s(2) have h1: "h_resets (nodes s ! 0) = []" by simp
  with q4 have h: "h_resets (nodes s ! 0) = []"
      "\<not> initial_reset_completed (station (nodes s ! 0))"
    by simp_all
  from q5 s(2) h have after: "h_resets (nodes s' ! 0) = [36]"
      "counters_zero (station (nodes s' ! 0))" "initial_reset_completed (station (nodes s' ! 0))"
    by simp_all
  from s s' h after have first: "\<exists>s s'. exec ex_reset_head (sim_init empty_channel) = Some (Inr s)
       \<and> step (At 0 (Wfs_finish 0)) s = Some (Inr s')
       \<and> completion_times 0 ex_reset_head (sim_init empty_channel) = []
       \<and> h_resets (nodes s ! 0) = []
       \<and> \<not> initial_reset_completed (station (nodes s ! 0))
       \<and> num_initial_transmits (station (nodes s ! 0)) = 1
       \<and> num_retries (station (nodes s ! 0)) = 1
       \<and> busy_time (station (nodes s ! 0)) = 3
       \<and> resets_at 0 (At 0 (Wfs_finish 0)) s
       \<and> h_resets (nodes s' ! 0) = [36]
       \<and> counters_zero (station (nodes s' ! 0))
       \<and> initial_reset_completed (station (nodes s' ! 0))"
    by (intro exI [of _ s] exI [of _ s']) simp
  have "case exec ex_collision_acts (sim_init empty_channel) of
          Some (Inr s) \<Rightarrow>
            length (nodes s) = 8
            \<and> completion_times 0 ex_collision_acts (sim_init empty_channel) = [36, 42]
        | _ \<Rightarrow> False"
    by code_simp
  then obtain u where u: "exec ex_collision_acts (sim_init empty_channel) = Some (Inr u)"
      "length (nodes u) = 8
            \<and> completion_times 0 ex_collision_acts (sim_init empty_channel) = [36, 42]"
    by (rule run_caseE)
  from u(2) have ku: "0 < length (nodes u)" by simp
  note full = reset_at_first_late_completion [OF u(1) ku]
  from full [THEN conjunct1] u(2) have "h_resets (nodes u ! 0) = [36]"
    by (simp add: TRANSIENT_TIME_def)
  moreover from this full [THEN conjunct2, THEN conjunct2, THEN conjunct2, THEN conjunct1]
  have "initial_reset_completed (station (nodes u ! 0))" by simp
  ultimately have "h_resets (nodes u ! 0) = [36]" "initial_reset_completed (station (nodes u ! 0))"
    by simp_all
  with u have "\<exists>s. exec ex_collision_acts (sim_init empty_channel) = Some (Inr s)
       \<and> completion_times 0 ex_collision_acts (sim_init empty_channel) = [36, 42]
       \<and> h_resets (nodes s ! 0) = [36]
       \<and> initial_reset_completed (station (nodes s ! 0))"
    by (intro exI [of _ u]) simp
  with first show ?thesis by blast
qed

text \<open>
  The claim C7 says exactly once for every station. In the replication without
  arrivals, which runs to \<open>TERMINATE_TIME\<close>, no message completes and no station is ever
  zeroed.
\<close>

theorem reset_not_exactly_once:
  "final_resets ex_idle_acts empty_channel = Some [[], [], [], [], [], [], [], []]"
  by code_simp

end
